theory Spec2Isabelle
  imports Complex_Main
begin

section \<open>Numbers\<close>

text \<open>
  The program computes with JavaScript numbers, which are doubles.  A double is a real
  number, so values are of type \<open>real\<close>.  In chart generation, hand tracking and the
  health rules every constant and every input of the statements below (beat indices that
  are multiples of 0.5, the beat time 60/128 = 15/32, health steps 10 and 1.5) is computed
  without rounding, and the operations are the exact ones.  NaN and the infinities are
  outside the model.

  The judgement loop compares computed depths and distances with thresholds, so there the
  rounding of each operation is part of the model.  It is a parameter: \<open>fl\<close> maps the
  exact result of one arithmetic operation to the double the machine returns, and a
  decimal literal to the double it denotes; \<open>cosf\<close>, \<open>sinf\<close> and \<open>sqrtf\<close> are
  \<open>Math.cos\<close>, \<open>Math.sin\<close> and \<open>Math.sqrt\<close>.
\<close>

record Arith =
  fl :: "real \<Rightarrow> real"
  cosf :: "real \<Rightarrow> real"
  sinf :: "real \<Rightarrow> real"
  sqrtf :: "real \<Rightarrow> real"

definition exactArith :: Arith where
  \<comment> \<open>arithmetic without rounding\<close>
  "exactArith = \<lparr> fl = (\<lambda>x. x), cosf = cos, sinf = sin, sqrtf = sqrt \<rparr>"

text \<open>
  What the statements below use of the machine's arithmetic, where they use anything:
  rounding is monotone, every multiple of 1/2 between -64 and 64 is a double, and the
  square root of 0 is 0.  Double arithmetic in every rounding mode has these properties,
  and so has exact arithmetic.
\<close>

definition rounding :: "Arith \<Rightarrow> bool" where
  "rounding ar = ((\<forall>x y. x \<le> y \<longrightarrow> fl ar x \<le> fl ar y)
     \<and> (\<forall>n::int. \<bar>n\<bar> \<le> 128 \<longrightarrow> fl ar (real_of_int n / 2) = real_of_int n / 2)
     \<and> sqrtf ar 0 = 0)"

definition js_rem :: "real \<Rightarrow> real \<Rightarrow> real" where
  \<comment> \<open>the \<open>%\<close> operator: the remainder has the sign of the dividend (quotient truncated)\<close>
  "js_rem a b = a - b * real_of_int (if 0 \<le> a / b then \<lfloor>a / b\<rfloor> else \<lceil>a / b\<rceil>)"

definition digit_char :: "nat \<Rightarrow> char" where
  "digit_char n = ''0123456789'' ! n"

function string_of_nat :: "nat \<Rightarrow> string" where
  "string_of_nat n = (if n < 10 then [digit_char n]
                      else string_of_nat (n div 10) @ [digit_char (n mod 10)])"
  by pat_completeness auto
termination
  by (relation "measure (\<lambda>n. n)") auto

declare string_of_nat.simps [simp del]

section \<open>Notes and the chart (constants.ts)\<close>

datatype HandType = Left | Right

datatype CutDirection = UP | DOWN | LEFT | RIGHT | ANY

text \<open>
  \<open>NoteData\<close>: the fields written by \<open>generateDemoChart\<close> and the three judgement fields
  the scene writes later.  A field the generator leaves out is \<open>undefined\<close> in the program:
  \<open>False\<close> for the two flags (they are only ever tested for truth) and \<open>None\<close> for
  \<open>hitTime\<close>.
\<close>

record NoteData =
  noteId :: string
  time :: real
  lineIndex :: int
  lineLayer :: int
  noteType :: HandType
  cutDirection :: CutDirection
  hit :: bool
  hitTime :: "real option"
  missed :: bool

definition TRACK_LENGTH :: real where "TRACK_LENGTH = 50"
definition SPAWN_Z :: real where "SPAWN_Z = - 30"
definition PLAYER_Z :: real where "PLAYER_Z = 0"
definition MISS_Z :: real where "MISS_Z = 5"
definition NOTE_SPEED :: real where "NOTE_SPEED = 12"
definition HEX_RADIUS :: real where "HEX_RADIUS = 1.4"
definition HEX_CENTER_Y :: real where "HEX_CENTER_Y = 1.5"
definition SONG_BPM :: real where "SONG_BPM = 128"

definition getLanePosition :: "Arith \<Rightarrow> int \<Rightarrow> real \<times> real" where
  \<comment> \<open>\<open>Math.PI\<close> is the double \<open>fl pi\<close>; 1.4 and 1.5 are the literals of the two constants\<close>
  "getLanePosition ar index =
     (let angle = fl ar (fl ar (real_of_int index * fl ar (fl ar pi / 3)) + fl ar (fl ar pi / 6))
      in (fl ar (cosf ar angle * fl ar HEX_RADIUS),
          fl ar (fl ar (sinf ar angle * fl ar HEX_RADIUS) + fl ar HEX_CENTER_Y)))"

definition mkNote :: "nat \<Rightarrow> real \<Rightarrow> int \<Rightarrow> HandType \<Rightarrow> NoteData" where
  \<comment> \<open>the object literal pushed by the generator; \<open>lineLayer\<close> is always 0, the direction always ANY\<close>
  "mkNote idCount t lane h =
     \<lparr> noteId = ''note-'' @ string_of_nat idCount, time = t, lineIndex = lane, lineLayer = 0,
       noteType = h, cutDirection = ANY, hit = False, hitTime = None, missed = False \<rparr>"

text \<open>
  One pass of the loop body of \<open>generateDemoChart\<close> at beat index \<open>i\<close>: the notes pushed,
  the new \<open>idCount\<close> and the number of \<open>Math.random()\<close> calls made so far.  The random
  source is a parameter: \<open>rnd k\<close> is the value of the \<open>k\<close>-th call.
\<close>

definition chartStep ::
  "real \<Rightarrow> (nat \<Rightarrow> real) \<Rightarrow> real \<Rightarrow> nat \<Rightarrow> nat \<Rightarrow> NoteData list \<times> nat \<times> nat" where
  "chartStep beatTime rnd i idCount rc =
     (let t = i * beatTime;
          pattern = js_rem (real_of_int \<lfloor>i / 8\<rfloor>) 4
      in if pattern = 0 then
           (let laneIndex = \<lfloor>js_rem (real_of_int \<lfloor>i\<rfloor>) 6\<rfloor>
            in ([mkNote idCount t laneIndex (if laneIndex < 3 then Left else Right)],
                idCount + 1, rc))
         else if pattern = 1 then
           (if js_rem i 3 = 0
            then ([mkNote idCount t 0 Left, mkNote (idCount + 1) t 3 Right], idCount + 2, rc)
            else ([], idCount, rc))
         else if pattern = 2 then
           (if js_rem i 2 = 0
            then (let idx = \<lfloor>rnd rc * 6\<rfloor>
                  in ([mkNote idCount t idx (if rnd (rc + 1) > 0.5 then Left else Right)],
                      idCount + 1, rc + 2))
            else ([], idCount, rc))
         else
           (if js_rem i 4 = 0
            then ([mkNote idCount t 1 Left, mkNote (idCount + 1) t 4 Right], idCount + 2, rc)
            else ([], idCount, rc)))"

function chartLoop :: "real \<Rightarrow> (nat \<Rightarrow> real) \<Rightarrow> real \<Rightarrow> nat \<Rightarrow> nat \<Rightarrow> NoteData list" where
  "chartLoop beatTime rnd i idCount rc =
     (if i < 200
      then (case chartStep beatTime rnd i idCount rc of
              (pushed, idCount', rc') \<Rightarrow> pushed @ chartLoop beatTime rnd (i + 1.5) idCount' rc')
      else [])"
  by pat_completeness auto
termination
proof (relation "measure (\<lambda>(beatTime, rnd, i, idCount, rc). nat \<lceil>(200 - i) / 1.5\<rceil>)")
  show "wf (measure (\<lambda>(beatTime, rnd, i, idCount, rc). nat \<lceil>(200 - i) / 1.5\<rceil>))"
    by simp
next
  fix beatTime :: real and rnd :: "nat \<Rightarrow> real" and i :: real and idCount rc :: nat
    and x2 :: "NoteData list \<times> nat \<times> nat" and pushed x2a idCount' rc'
  assume lt: "i < 200"
  have "(200 - (i + 1.5)) / 1.5 = (200 - i) / 1.5 - 1"
    by (simp add: field_simps)
  then have "\<lceil>(200 - (i + 1.5)) / 1.5\<rceil> = \<lceil>(200 - i) / 1.5 - 1\<rceil>"
    by (simp only:)
  also have "\<dots> = \<lceil>(200 - i) / 1.5\<rceil> - 1"
    by simp
  finally have eq: "\<lceil>(200 - (i + 1.5)) / 1.5\<rceil> = \<lceil>(200 - i) / 1.5\<rceil> - 1" .
  have "0 < (200 - i) / 1.5" using lt by simp
  then have "0 < \<lceil>(200 - i) / 1.5\<rceil>" by linarith
  with eq have "nat \<lceil>(200 - (i + 1.5)) / 1.5\<rceil> < nat \<lceil>(200 - i) / 1.5\<rceil>"
    by linarith
  then show "((beatTime, rnd, i + 1.5, idCount', rc'), (beatTime, rnd, i, idCount, rc))
      \<in> measure (\<lambda>(beatTime, rnd, i, idCount, rc). nat \<lceil>(200 - i) / 1.5\<rceil>)"
    by simp
qed

declare chartLoop.simps [simp del]

definition BEAT_TIME :: real where
  "BEAT_TIME = 60 / SONG_BPM"

text \<open>
  \<open>generateDemoChart\<close>: the loop from beat 4, then
  \<open>notes.sort((a, b) => a.time - b.time)\<close>, a stable sort on \<open>time\<close>.  The function
  has no \<open>throw\<close> and calls nothing that throws, so it returns on every call.
\<close>

definition generateDemoChart :: "(nat \<Rightarrow> real) \<Rightarrow> NoteData list" where
  "generateDemoChart rnd = sort_key time (chartLoop BEAT_TIME rnd 4 0 0)"


definition rnd0 :: "nat \<Rightarrow> real" where
  \<comment> \<open>a random source that always answers 0\<close>
  "rnd0 k = 0"

section \<open>Hand tracking (hooks/useMediaPipe.ts)\<close>

datatype Vector3 = Vector3 (vx: real) (vy: real) (vz: real)

definition lerpVectors :: "Vector3 \<Rightarrow> Vector3 \<Rightarrow> real \<Rightarrow> Vector3" where
  "lerpVectors v1 v2 alpha =
     Vector3 (vx v1 + (vx v2 - vx v1) * alpha)
             (vy v1 + (vy v2 - vy v1) * alpha)
             (vz v1 + (vz v2 - vz v1) * alpha)"

definition subVectors :: "Vector3 \<Rightarrow> Vector3 \<Rightarrow> Vector3" where
  "subVectors a b = Vector3 (vx a - vx b) (vy a - vy b) (vz a - vz b)"

definition divideScalar :: "Vector3 \<Rightarrow> real \<Rightarrow> Vector3" where
  "divideScalar v s = Vector3 (vx v / s) (vy v / s) (vz v / s)"

definition distanceTo :: "Arith \<Rightarrow> Vector3 \<Rightarrow> Vector3 \<Rightarrow> real" where
  \<comment> \<open>\<open>Math.sqrt(dx * dx + dy * dy + dz * dz)\<close> on the coordinate differences\<close>
  "distanceTo ar p q =
     (let dx = fl ar (vx p - vx q); dy = fl ar (vy p - vy q); dz = fl ar (vz p - vz q)
      in sqrtf ar (fl ar (fl ar (fl ar (dx * dx) + fl ar (dy * dy)) + fl ar (dz * dz))))"

definition mapHandToWorld :: "real \<Rightarrow> real \<Rightarrow> Vector3" where
  "mapHandToWorld x y =
     (let GAME_X_RANGE = 7.5; GAME_Y_RANGE = 6.0; Y_OFFSET = 1.2;
          worldX = (0.5 - x) * GAME_X_RANGE;
          worldY = (1.0 - y) * GAME_Y_RANGE - (GAME_Y_RANGE / 2) + Y_OFFSET;
          worldZ = - max 0 (worldY * 0.1)
      in Vector3 worldX (max 0.1 worldY) worldZ)"

text \<open>The object held by \<open>handPositionsRef\<close>.\<close>

record HandPositions =
  left :: "Vector3 option"
  right :: "Vector3 option"
  lastLeft :: "Vector3 option"
  lastRight :: "Vector3 option"
  leftVelocity :: Vector3
  rightVelocity :: Vector3
  lastTimestamp :: real

definition initialHands :: HandPositions where
  "initialHands =
     \<lparr> left = None, right = None, lastLeft = None, lastRight = None,
       leftVelocity = Vector3 0 0 0, rightVelocity = Vector3 0 0 0, lastTimestamp = 0 \<rparr>"

text \<open>
  One detected hand of a \<open>HandLandmarkerResult\<close>: the label
  \<open>handedness[i][0].categoryName\<close> and the index-finger tip \<open>landmarks[i][8]\<close>.
\<close>

record DetectedHand =
  categoryName :: string
  tipX :: real
  tipY :: real

fun detectLoop ::
  "DetectedHand list \<Rightarrow> Vector3 option \<times> Vector3 option \<Rightarrow> Vector3 option \<times> Vector3 option" where
  "detectLoop [] acc = acc"
| "detectLoop (h # hs) (newLeft, newRight) =
     (let isRight = (categoryName h = ''Right'');
          worldPos = mapHandToWorld (tipX h) (tipY h)
      in detectLoop hs (if isRight then (newLeft, Some worldPos) else (Some worldPos, newRight)))"

definition LERP :: real where "LERP = 0.6"

definition updateLeft :: "real \<Rightarrow> Vector3 option \<Rightarrow> HandPositions \<Rightarrow> HandPositions" where
  "updateLeft deltaTime newLeft s =
     (case newLeft of
        Some raw \<Rightarrow>
          (case left s of
             Some prev \<Rightarrow>
               (let blended = lerpVectors prev raw LERP;
                    s1 = (if deltaTime > 0.001
                          then s\<lparr>leftVelocity := divideScalar (subVectors blended prev) deltaTime\<rparr>
                          else s)
                in s1\<lparr>lastLeft := Some prev, left := Some blended\<rparr>)
           | None \<Rightarrow> s\<lparr>lastLeft := Some raw, left := Some raw\<rparr>)
      | None \<Rightarrow> s\<lparr>left := None\<rparr>)"

definition updateRight :: "real \<Rightarrow> Vector3 option \<Rightarrow> HandPositions \<Rightarrow> HandPositions" where
  "updateRight deltaTime newRight s =
     (case newRight of
        Some raw \<Rightarrow>
          (case right s of
             Some prev \<Rightarrow>
               (let blended = lerpVectors prev raw LERP;
                    s1 = (if deltaTime > 0.001
                          then s\<lparr>rightVelocity := divideScalar (subVectors blended prev) deltaTime\<rparr>
                          else s)
                in s1\<lparr>lastRight := Some prev, right := Some blended\<rparr>)
           | None \<Rightarrow> s\<lparr>lastRight := Some raw, right := Some raw\<rparr>)
      | None \<Rightarrow> s\<lparr>right := None\<rparr>)"

text \<open>
  \<open>processResults\<close> at clock reading \<open>now\<close> (milliseconds): the delta since the last
  call, the detection loop, then the two hands in the order left, right.
\<close>

definition processResults :: "real \<Rightarrow> DetectedHand list \<Rightarrow> HandPositions \<Rightarrow> HandPositions" where
  "processResults now results s0 =
     (let deltaTime = (now - lastTimestamp s0) / 1000;
          s = s0\<lparr>lastTimestamp := now\<rparr>;
          new = detectLoop results (None, None)
      in updateRight deltaTime (snd new) (updateLeft deltaTime (fst new) s))"

fun processFrames :: "(real \<times> DetectedHand list) list \<Rightarrow> HandPositions \<Rightarrow> HandPositions" where
  "processFrames [] s = s"
| "processFrames ((now, results) # fs) s = processFrames fs (processResults now results s)"

section \<open>The scene (components/GameScene.tsx)\<close>

datatype GameStatus = LOADING | IDLE | PLAYING | PAUSED | GAME_OVER | VICTORY

text \<open>
  The callbacks \<open>onNoteHit(note, true)\<close> and \<open>onNoteMiss(note)\<close>, recorded as events.
  A note object is named by its index in the chart: the active list holds references to
  the chart's own objects, so a flag written through the active list is seen through the
  chart.
\<close>

datatype NoteEvent = HitEvent nat bool | MissEvent nat

record Scene =
  chart :: "NoteData list"
  gameStatus :: GameStatus
  activeNotes :: "nat list"
  nextNoteIndex :: nat

definition spawnAheadTime :: real where
  "spawnAheadTime = \<bar>SPAWN_Z - PLAYER_Z\<bar> / NOTE_SPEED"

function admitLoop :: "real \<Rightarrow> Scene \<Rightarrow> Scene" where
  "admitLoop t s =
     (if nextNoteIndex s < length (chart s)
      then (let nextNote = chart s ! nextNoteIndex s
            in if time nextNote - spawnAheadTime \<le> t
               then admitLoop t (s\<lparr>activeNotes := activeNotes s @ [nextNoteIndex s],
                                   nextNoteIndex := nextNoteIndex s + 1\<rparr>)
               else s)
      else s)"
  by pat_completeness auto
termination
  by (relation "measure (\<lambda>(t, s). length (chart s) - nextNoteIndex s)") auto

declare admitLoop.simps [simp del]

definition spliceAt :: "nat \<Rightarrow> 'a list \<Rightarrow> 'a list" where
  \<comment> \<open>\<open>splice(i, 1)\<close>\<close>
  "spliceAt i xs = take i xs @ drop (Suc i) xs"

definition currentZ :: "Arith \<Rightarrow> real \<Rightarrow> NoteData \<Rightarrow> real" where
  "currentZ ar t note = fl ar (PLAYER_Z - fl ar (fl ar (time note - t) * NOTE_SPEED))"

text \<open>
  The body of the judgement loop at position \<open>i\<close> of the active list.  The loop runs
  \<open>i\<close> downwards and removes only the entry at \<open>i\<close>, so \<open>i\<close> is always in range.
\<close>

definition judgeNote ::
  "Arith \<Rightarrow> real \<Rightarrow> HandPositions \<Rightarrow> nat \<Rightarrow> Scene \<times> NoteEvent list
     \<Rightarrow> Scene \<times> NoteEvent list" where
  "judgeNote ar t hands i st =
     (let s = fst st; evs = snd st;
          k = activeNotes s ! i;
          note = chart s ! k
      in if hit note \<or> missed note then (s, evs)
         else if currentZ ar t note > MISS_Z then
           (s\<lparr>chart := (chart s)[k := note\<lparr>missed := True\<rparr>],
              activeNotes := spliceAt i (activeNotes s)\<rparr>,
            evs @ [MissEvent k])
         else if currentZ ar t note > fl ar (PLAYER_Z - fl ar 1.2)
                 \<and> currentZ ar t note < fl ar (PLAYER_Z + fl ar 0.6) then
           (case (if noteType note = Left then left hands else right hands) of
              None \<Rightarrow> (s, evs)
            | Some handPos \<Rightarrow>
                (let lanePos = getLanePosition ar (lineIndex note);
                     notePos = Vector3 (fst lanePos) (snd lanePos) (currentZ ar t note)
                 in if distanceTo ar handPos notePos < fl ar 1.1
                    then (s\<lparr>chart := (chart s)[k := note\<lparr>hit := True, hitTime := Some t\<rparr>],
                            activeNotes := spliceAt i (activeNotes s)\<rparr>,
                          evs @ [HitEvent k True])
                    else (s, evs)))
         else (s, evs))"

fun judgeLoop ::
  "Arith \<Rightarrow> real \<Rightarrow> HandPositions \<Rightarrow> nat \<Rightarrow> Scene \<times> NoteEvent list
     \<Rightarrow> Scene \<times> NoteEvent list" where
  "judgeLoop ar t hands 0 st = st"
| "judgeLoop ar t hands (Suc i) st = judgeLoop ar t hands i (judgeNote ar t hands i st)"

text \<open>
  The \<open>useFrame\<close> callback at playback position \<open>t\<close> with the hands last published.
  (\<open>audioRef.current\<close> is the \<open>Audio\<close> object the application creates once, so only the
  status test can return early.)
\<close>

definition useFrame ::
  "Arith \<Rightarrow> real \<Rightarrow> HandPositions \<Rightarrow> Scene \<Rightarrow> Scene \<times> NoteEvent list" where
  "useFrame ar t hands s =
     (if gameStatus s \<noteq> PLAYING then (s, [])
      else (let s1 = admitLoop t s
            in judgeLoop ar t hands (length (activeNotes s1)) (s1, [])))"

text \<open>The effect with dependencies \<open>[chart, gameStatus]\<close>: it runs when either changes.\<close>

definition resetEffect :: "Scene \<Rightarrow> Scene" where
  "resetEffect s = s\<lparr>activeNotes := [], nextNoteIndex := 0\<rparr>"

definition setGameStatus :: "GameStatus \<Rightarrow> Scene \<Rightarrow> Scene" where
  "setGameStatus g s = (if g = gameStatus s then s else resetEffect (s\<lparr>gameStatus := g\<rparr>))"

definition startScene :: "NoteData list \<Rightarrow> Scene" where
  \<comment> \<open>the scene after \<open>startGame\<close>: a new chart, status PLAYING, and the effect has run\<close>
  "startScene c = \<lparr> chart = c, gameStatus = PLAYING, activeNotes = [], nextNoteIndex = 0 \<rparr>"

datatype SceneInput = Frame real HandPositions | StatusChange GameStatus

fun sceneStep :: "Arith \<Rightarrow> SceneInput \<Rightarrow> Scene \<Rightarrow> Scene \<times> NoteEvent list" where
  "sceneStep ar (Frame t hands) s = useFrame ar t hands s"
| "sceneStep ar (StatusChange g) s = (setGameStatus g s, [])"

fun runScene :: "Arith \<Rightarrow> SceneInput list \<Rightarrow> Scene \<Rightarrow> Scene" where
  "runScene ar [] s = s"
| "runScene ar (inp # inps) s = runScene ar inps (fst (sceneStep ar inp s))"


text \<open>
  The admissions of an input: the entries its admit loop pushes onto the active list,
  each with the playback position of the frame.
\<close>

fun admitted :: "SceneInput \<Rightarrow> Scene \<Rightarrow> (nat \<times> real) list" where
  "admitted (Frame t hands) s =
     (if gameStatus s \<noteq> PLAYING then []
      else map (\<lambda>k. (k, t)) (drop (length (activeNotes s)) (activeNotes (admitLoop t s))))"
| "admitted (StatusChange g) s = []"

fun admissions :: "Arith \<Rightarrow> SceneInput list \<Rightarrow> Scene \<Rightarrow> (nat \<times> real) list" where
  "admissions ar [] s = []"
| "admissions ar (inp # inps) s = admitted inp s @ admissions ar inps (fst (sceneStep ar inp s))"

fun isFrame :: "SceneInput \<Rightarrow> bool" where
  "isFrame (Frame t hands) = True"
| "isFrame (StatusChange g) = False"

section \<open>Score, combo and health (App.tsx)\<close>

record Session =
  status :: GameStatus
  score :: nat
  combo :: nat
  health :: real

definition handleNoteHit :: "Session \<Rightarrow> Session" where
  "handleNoteHit s = s\<lparr>score := score s + 100, combo := combo s + 1,
                       health := min 100 (health s + 1.5)\<rparr>"

definition handleNoteMiss :: "Session \<Rightarrow> Session" where
  "handleNoteMiss s =
     (let s1 = s\<lparr>combo := 0\<rparr>;
          newHealth = health s1 - 10
      in if newHealth \<le> 0 then s1\<lparr>status := GAME_OVER, health := 0\<rparr>
         else s1\<lparr>health := newHealth\<rparr>)"

definition startSession :: Session where
  \<comment> \<open>the state set by \<open>startGame\<close>\<close>
  "startSession = \<lparr> status = PLAYING, score = 0, combo = 0, health = 100 \<rparr>"

fun handleEvent :: "NoteEvent \<Rightarrow> Session \<Rightarrow> Session" where
  "handleEvent (HitEvent k goodCut) s = handleNoteHit s"
| "handleEvent (MissEvent k) s = handleNoteMiss s"

fun handleEvents :: "NoteEvent list \<Rightarrow> Session \<Rightarrow> Session" where
  "handleEvents [] s = s"
| "handleEvents (e # es) s = handleEvents es (handleEvent e s)"


section \<open>Predicates used in the statements\<close>

definition resolved :: "NoteData \<Rightarrow> bool" where
  "resolved n = (hit n \<or> missed n)"

definition noteInv :: "NoteData \<Rightarrow> bool" where
  "noteInv n = (\<not> (hit n \<and> missed n) \<and> ((hitTime n \<noteq> None) = hit n))"

definition handFor :: "HandPositions \<Rightarrow> NoteData \<Rightarrow> Vector3 option" where
  \<comment> \<open>the hand the judgement loop selects for a note\<close>
  "handFor hands note = (if noteType note = Left then left hands else right hands)"

definition notePos :: "Arith \<Rightarrow> real \<Rightarrow> NoteData \<Rightarrow> Vector3" where
  \<comment> \<open>the anchor of a note: its lane position at its current depth\<close>
  "notePos ar t note =
     Vector3 (fst (getLanePosition ar (lineIndex note))) (snd (getLanePosition ar (lineIndex note)))
             (currentZ ar t note)"

definition inWindow :: "Arith \<Rightarrow> real \<Rightarrow> bool" where
  "inWindow ar z = (z > fl ar (PLAYER_Z - fl ar 1.2) \<and> z < fl ar (PLAYER_Z + fl ar 0.6))"



section \<open>Concrete inputs\<close>

text \<open>Detector outputs and clock readings used to run the definitions above.\<close>

definition leftAt :: "real \<Rightarrow> real \<Rightarrow> DetectedHand" where
  "leftAt x y = \<lparr> categoryName = ''Left'', tipX = x, tipY = y \<rparr>"

definition gapFrames :: "(real \<times> DetectedHand list) list" where
  \<comment> \<open>the left hand seen at 1000 ms and 1016 ms, then lost at 1032 ms\<close>
  "gapFrames = [(1000, [leftAt 0.5 0.5]), (1016, [leftAt 0.3 0.5]), (1032, [])]"

definition oneNoteChart :: "NoteData list" where
  \<comment> \<open>a chart of one left-hand note on lane 0, due at 3 s\<close>
  "oneNoteChart = [mkNote 0 3 0 Left]"

definition handsAt :: "Vector3 \<Rightarrow> HandPositions" where
  \<comment> \<open>both hands published at the same point\<close>
  "handsAt p = initialHands\<lparr>left := Some p, right := Some p\<rparr>"

definition hitHands :: HandPositions where
  \<comment> \<open>hands on the anchor of that note at the moment it is due\<close>
  "hitHands = handsAt (notePos exactArith 3 (mkNote 0 3 0 Left))"

definition pauseTrace :: "SceneInput list" where
  \<comment> \<open>a frame at 1 s, a pause, a resume, a frame at 2 s\<close>
  "pauseTrace = [Frame 1 initialHands, StatusChange PAUSED, StatusChange PLAYING,
                 Frame 2 initialHands]"




section \<open>Chart generation: properties\<close>

lemma chartStep_times:
  assumes "chartStep beatTime rnd i idCount rc = (pushed, idCount', rc')" and "n \<in> set pushed"
  shows "time n = i * beatTime"
  using assms by (auto simp: chartStep_def Let_def mkNote_def split: if_splits)

lemma chartLoop_times:
  "n \<in> set (chartLoop beatTime rnd i idCount rc) \<Longrightarrow> 0 \<le> beatTime \<Longrightarrow> i * beatTime \<le> time n"
proof (induction beatTime rnd i idCount rc rule: chartLoop.induct)
  case (1 beatTime rnd i idCount rc)
  show ?case
  proof (cases "i < 200")
    case False
    with "1.prems" show ?thesis by (simp add: chartLoop.simps)
  next
    case True
    obtain pushed idCount' rc' where st: "chartStep beatTime rnd i idCount rc = (pushed, idCount', rc')"
      by (cases "chartStep beatTime rnd i idCount rc") auto
    from True st "1.prems"(1)
    have "n \<in> set pushed \<or> n \<in> set (chartLoop beatTime rnd (i + 1.5) idCount' rc')"
      by (subst (asm) chartLoop.simps) auto
    then show ?thesis
    proof
      assume "n \<in> set pushed"
      with st show ?thesis by (simp add: chartStep_times)
    next
      assume "n \<in> set (chartLoop beatTime rnd (i + 1.5) idCount' rc')"
      with "1.IH"[OF True st[symmetric] refl] "1.prems"(2)
      have "(i + 1.5) * beatTime \<le> time n" by simp
      moreover have "i * beatTime \<le> (i + 1.5) * beatTime"
        using "1.prems"(2) by (simp add: mult_right_mono)
      ultimately show ?thesis by linarith
    qed
  qed
qed

lemma string_of_nat_0: "string_of_nat 0 = ''0''"
  by (simp add: string_of_nat.simps digit_char_def)

lemma chartStep_4: "chartStep b rnd 4 0 0 = ([mkNote 0 (4 * b) 4 Right], 1, 0)"
  by (simp add: chartStep_def js_rem_def Let_def)

lemma chartLoop_first:
  "chartLoop b rnd 4 0 0 = mkNote 0 (4 * b) 4 Right # chartLoop b rnd (4 + 1.5) 1 0"
  by (subst chartLoop.simps) (simp only: chartStep_4, simp)

lemma chartStep_55: "chartStep b rnd (4 + 1.5) 1 0 = ([mkNote 1 ((4 + 1.5) * b) 5 Right], 2, 0)"
  by (simp add: chartStep_def js_rem_def Let_def)

lemma chartLoop_second:
  "chartLoop b rnd (4 + 1.5) 1 0 = mkNote 1 ((4 + 1.5) * b) 5 Right # chartLoop b rnd (4 + 1.5 + 1.5) 2 0"
  by (subst chartLoop.simps) (simp only: chartStep_55, simp)

lemma insort_key_least:
  "\<forall>y \<in> set ys. f x \<le> f y \<Longrightarrow> insort_key f x ys = x # ys"
  by (cases ys) auto

lemma sort_key_sorted_id: "sorted (map f xs) \<Longrightarrow> sort_key f xs = xs"
  by (induction xs) (auto simp: insort_key_least)

lemma chartLoop_sorted:
  "0 \<le> b \<Longrightarrow> sorted (map time (chartLoop b rnd i idCount rc))"
proof (induction b rnd i idCount rc rule: chartLoop.induct)
  case (1 b rnd i idCount rc)
  show ?case
  proof (cases "i < 200")
    case False
    then show ?thesis by (simp add: chartLoop.simps)
  next
    case True
    obtain pushed idCount' rc' where st: "chartStep b rnd i idCount rc = (pushed, idCount', rc')"
      by (cases "chartStep b rnd i idCount rc") auto
    have eq: "chartLoop b rnd i idCount rc = pushed @ chartLoop b rnd (i + 1.5) idCount' rc'"
      using True st by (subst chartLoop.simps) simp
    have s1: "sorted (map time pushed)"
      using st by (auto simp: chartStep_def Let_def mkNote_def split: if_splits)
    have s2: "sorted (map time (chartLoop b rnd (i + 1.5) idCount' rc'))"
      using "1.IH"[OF True st[symmetric] refl] "1.prems" by simp
    have s3: "time x \<le> time y" if "x \<in> set pushed" "y \<in> set (chartLoop b rnd (i + 1.5) idCount' rc')" for x y
    proof -
      have "time x = i * b" using st that(1) by (rule chartStep_times)
      moreover have "(i + 1.5) * b \<le> time y" using that(2) "1.prems" by (rule chartLoop_times)
      moreover have "i * b \<le> (i + 1.5) * b" using "1.prems" by (simp add: mult_right_mono)
      ultimately show ?thesis by linarith
    qed
    show ?thesis unfolding eq using s1 s2 s3 by (auto simp: sorted_append)
  qed
qed

lemma BEAT_TIME_value: "BEAT_TIME = 60 / 128"
  by (simp add: BEAT_TIME_def SONG_BPM_def)

lemma generateDemoChart_unsorted: "generateDemoChart rnd = chartLoop (60 / 128) rnd 4 0 0"
  unfolding generateDemoChart_def BEAT_TIME_value
  by (rule sort_key_sorted_id) (simp add: chartLoop_sorted)

lemma chart_length_ge2: "1 < length (generateDemoChart rnd)"
proof -
  have "generateDemoChart rnd = chartLoop (60 / 128) rnd 4 0 0"
    by (rule generateDemoChart_unsorted)
  then show ?thesis
    by (simp only: chartLoop_first chartLoop_second) simp
qed

lemma chart_head:
  "generateDemoChart rnd = mkNote 0 1.875 4 Right # chartLoop (60 / 128) rnd (4 + 1.5) 1 0"
proof -
  have "generateDemoChart rnd = chartLoop (60 / 128) rnd 4 0 0"
    by (rule generateDemoChart_unsorted)
  also have "\<dots> = mkNote 0 (4 * (60 / 128)) 4 Right # chartLoop (60 / 128) rnd (4 + 1.5) 1 0"
    by (rule chartLoop_first)
  also have "4 * (60 / 128) = (1.875 :: real)" by simp
  finally show ?thesis .
qed

text \<open>
  C5.  Every chart returned by \<open>generateDemoChart\<close>, whatever the random source answers,
  is sorted non-decreasing by note time: for indices \<open>i \<le> j\<close> of the returned list,
  \<open>notes[i].time \<le> notes[j].time\<close>.
\<close>

theorem generateDemoChart_sorted:
  "i \<le> j \<Longrightarrow> j < length (generateDemoChart rnd) \<Longrightarrow>
     time (generateDemoChart rnd ! i) \<le> time (generateDemoChart rnd ! j)"
proof -
  assume ij: "i \<le> j" and j: "j < length (generateDemoChart rnd)"
  have "sorted (map time (generateDemoChart rnd))"
    by (simp add: generateDemoChart_def)
  then have "map time (generateDemoChart rnd) ! i \<le> map time (generateDemoChart rnd) ! j"
    using ij j by (intro sorted_nth_mono) simp_all
  then show ?thesis using ij j by simp
qed

theorem generateDemoChart_sorted_witness:
  "(0::nat) \<le> 1 \<and> 1 < length (generateDemoChart rnd0)
   \<and> time (generateDemoChart rnd0 ! 0) \<le> time (generateDemoChart rnd0 ! 1)"
proof -
  have h1: "(0::nat) \<le> 1" by simp
  have h2: "1 < length (generateDemoChart rnd0)" by (rule chart_length_ge2)
  from generateDemoChart_sorted [OF h1 h2] h1 h2 show ?thesis by simp
qed

text \<open>
  C9.  With \<open>SONG_BPM = 128\<close> one beat lasts 60/128 = 0.46875 s.  At beat index 4 the
  pattern selector is 0 and the loop pushes exactly one note, with time
  4 * 0.46875 = 1.875, lane index 4 and hand right; it is the first note of every
  generated chart.
\<close>

theorem beat4_note:
  "60 / SONG_BPM = 0.46875
   \<and> js_rem (real_of_int \<lfloor>4 / 8 :: real\<rfloor>) 4 = 0
   \<and> fst (chartStep (60 / SONG_BPM) rnd 4 0 0)
       = [\<lparr> noteId = ''note-0'', time = 1.875, lineIndex = 4, lineLayer = 0, noteType = Right,
            cutDirection = ANY, hit = False, hitTime = None, missed = False \<rparr>]
   \<and> generateDemoChart rnd \<noteq> []
   \<and> generateDemoChart rnd ! 0
       = \<lparr> noteId = ''note-0'', time = 1.875, lineIndex = 4, lineLayer = 0, noteType = Right,
           cutDirection = ANY, hit = False, hitTime = None, missed = False \<rparr>"
proof (intro conjI)
  show "60 / SONG_BPM = 0.46875" by (simp add: SONG_BPM_def)
  show "js_rem (real_of_int \<lfloor>4 / 8 :: real\<rfloor>) 4 = 0" by (simp add: js_rem_def)
  show "fst (chartStep (60 / SONG_BPM) rnd 4 0 0)
       = [\<lparr> noteId = ''note-0'', time = 1.875, lineIndex = 4, lineLayer = 0, noteType = Right,
            cutDirection = ANY, hit = False, hitTime = None, missed = False \<rparr>]"
    by (simp add: chartStep_4 mkNote_def string_of_nat_0 SONG_BPM_def)
  show "generateDemoChart rnd \<noteq> []" by (simp add: chart_head)
  show "generateDemoChart rnd ! 0
       = \<lparr> noteId = ''note-0'', time = 1.875, lineIndex = 4, lineLayer = 0, noteType = Right,
           cutDirection = ANY, hit = False, hitTime = None, missed = False \<rparr>"
    by (simp add: chart_head mkNote_def string_of_nat_0)
qed



section \<open>Hand tracking: properties\<close>

lemma mapHandToWorld_vy: "vy (mapHandToWorld x y) = max 0.1 ((1 - y) * 6 - 3 + 1.2)"
  by (simp add: mapHandToWorld_def Let_def)

lemma mapHandToWorld_vz: "vz (mapHandToWorld x y) = - max 0 (((1 - y) * 6 - 3 + 1.2) * 0.1)"
  by (simp add: mapHandToWorld_def Let_def)

text \<open>
  C10.  For every detector coordinate \<open>(x, y)\<close> the mapped point has a y-component of at
  least 0.1 and a z-component of at most 0: a mapped hand is never below the plane
  \<open>y = 0.1\<close> nor in front of \<open>z = 0\<close>.  The mapping is therefore clamped and not
  affine: no \<open>a\<close>, \<open>b\<close> give the y-component as \<open>a * y + b\<close> for all \<open>y\<close>.
\<close>

theorem mapHandToWorld_clamped:
  "0.1 \<le> vy (mapHandToWorld x y) \<and> vz (mapHandToWorld x y) \<le> 0
   \<and> \<not> (\<exists>a b. \<forall>y'. vy (mapHandToWorld x y') = a * y' + b)"
proof (intro conjI)
  show "0.1 \<le> vy (mapHandToWorld x y)" by (simp add: mapHandToWorld_vy)
  show "vz (mapHandToWorld x y) \<le> 0" by (simp add: mapHandToWorld_vz)
  show "\<not> (\<exists>a b. \<forall>y'. vy (mapHandToWorld x y') = a * y' + b)"
  proof
    assume "\<exists>a b. \<forall>y'. vy (mapHandToWorld x y') = a * y' + b"
    then obtain a b where ab: "\<And>y'. vy (mapHandToWorld x y') = a * y' + b" by blast
    have "vy (mapHandToWorld x 0) = 4.2" by (simp add: mapHandToWorld_vy)
    with ab[of 0] have b: "b = 4.2" by simp
    have "vy (mapHandToWorld x 0.5) = 1.2" by (simp add: mapHandToWorld_vy)
    with ab[of "0.5"] b have a: "a = - 6" by simp
    have "vy (mapHandToWorld x 1) = 0.1" by (simp add: mapHandToWorld_vy)
    with ab[of 1] a b show False by simp
  qed
qed

lemma left_updateRight [simp]: "left (updateRight dt nr s) = left s"
  by (simp add: updateRight_def Let_def split: option.splits)

lemma leftVelocity_updateRight [simp]: "leftVelocity (updateRight dt nr s) = leftVelocity s"
  by (simp add: updateRight_def Let_def split: option.splits)

lemma right_updateLeft [simp]: "right (updateLeft dt nl s) = right s"
  by (simp add: updateLeft_def Let_def split: option.splits)

lemma rightVelocity_updateLeft [simp]: "rightVelocity (updateLeft dt nl s) = rightVelocity s"
  by (simp add: updateLeft_def Let_def split: option.splits)



lemma updateLeft_first:
  "left s = None \<Longrightarrow> left (updateLeft dt (Some raw) s) = Some raw
     \<and> leftVelocity (updateLeft dt (Some raw) s) = leftVelocity s"
  by (simp add: updateLeft_def Let_def)

lemma updateRight_first:
  "right s = None \<Longrightarrow> right (updateRight dt (Some raw) s) = Some raw
     \<and> rightVelocity (updateRight dt (Some raw) s) = rightVelocity s"
  by (simp add: updateRight_def Let_def)

lemma updateLeft_absent:
  "left (updateLeft dt None s) = None \<and> leftVelocity (updateLeft dt None s) = leftVelocity s"
  by (simp add: updateLeft_def)

lemma updateRight_absent:
  "right (updateRight dt None s) = None \<and> rightVelocity (updateRight dt None s) = rightVelocity s"
  by (simp add: updateRight_def)

lemma lerp_example: "lerpVectors (Vector3 0 0 0) (Vector3 10 0 0) LERP = Vector3 6 0 0"
  by (simp add: lerpVectors_def LERP_def)

lemma detect_one: "detectLoop [leftAt x y] (None, None) = (Some (mapHandToWorld x y), None)"
  by (simp add: leftAt_def Let_def)

lemma left_processResults:
  "left (processResults now results s)
     = left (updateLeft ((now - lastTimestamp s) / 1000) (fst (detectLoop results (None, None)))
               (s\<lparr>lastTimestamp := now\<rparr>))"
  by (simp add: processResults_def Let_def)

lemma right_processResults:
  "right (processResults now results s)
     = right (updateRight ((now - lastTimestamp s) / 1000) (snd (detectLoop results (None, None)))
               (s\<lparr>lastTimestamp := now\<rparr>))"
  by (simp add: processResults_def Let_def updateRight_def updateLeft_def split: option.splits)



lemma leftVelocity_processResults:
  "leftVelocity (processResults now results s)
     = leftVelocity (updateLeft ((now - lastTimestamp s) / 1000) (fst (detectLoop results (None, None)))
               (s\<lparr>lastTimestamp := now\<rparr>))"
  by (simp add: processResults_def Let_def)

lemma rightVelocity_processResults:
  "rightVelocity (processResults now results s)
     = rightVelocity (updateRight ((now - lastTimestamp s) / 1000) (snd (detectLoop results (None, None)))
               (s\<lparr>lastTimestamp := now\<rparr>))"
  by (simp add: processResults_def Let_def updateRight_def updateLeft_def split: option.splits)

lemma detectLoop_fst:
  "fst (detectLoop results acc) = Some raw \<Longrightarrow>
     fst acc = Some raw \<or> (\<exists>h \<in> set results. categoryName h \<noteq> ''Right'' \<and> raw = mapHandToWorld (tipX h) (tipY h))"
proof (induction results arbitrary: acc)
  case Nil
  then show ?case by simp
next
  case (Cons h hs)
  obtain l r where acc: "acc = (l, r)" by (cases acc)
  from Cons.prems Cons.IH[of "if categoryName h = ''Right'' then (l, Some (mapHandToWorld (tipX h) (tipY h)))
       else (Some (mapHandToWorld (tipX h) (tipY h)), r)"]
  show ?case by (auto simp: acc Let_def split: if_splits)
qed

lemma detectLoop_snd:
  "snd (detectLoop results acc) = Some raw \<Longrightarrow>
     snd acc = Some raw \<or> (\<exists>h \<in> set results. categoryName h = ''Right'' \<and> raw = mapHandToWorld (tipX h) (tipY h))"
proof (induction results arbitrary: acc)
  case Nil
  then show ?case by simp
next
  case (Cons h hs)
  obtain l r where acc: "acc = (l, r)" by (cases acc)
  from Cons.prems Cons.IH[of "if categoryName h = ''Right'' then (l, Some (mapHandToWorld (tipX h) (tipY h)))
       else (Some (mapHandToWorld (tipX h) (tipY h)), r)"]
  show ?case by (auto simp: acc Let_def split: if_splits)
qed

lemma never_seen_left:
  "\<forall>f \<in> set fs. fst (detectLoop (snd f) (None, None)) = None \<Longrightarrow> left s = None \<Longrightarrow>
     left (processFrames fs s) = None \<and> leftVelocity (processFrames fs s) = leftVelocity s"
proof (induction fs arbitrary: s)
  case Nil
  then show ?case by simp
next
  case (Cons f fs)
  obtain now results where f: "f = (now, results)" by (cases f)
  from Cons.prems have d: "fst (detectLoop results (None, None)) = None" by (simp add: f)
  have l: "left (processResults now results s) = None"
    by (simp add: left_processResults d updateLeft_absent)
  have v: "leftVelocity (processResults now results s) = leftVelocity s"
    by (simp add: leftVelocity_processResults d updateLeft_absent)
  from Cons.IH[OF _ l] Cons.prems v show ?case by (simp add: f)
qed

lemma never_seen_right:
  "\<forall>f \<in> set fs. snd (detectLoop (snd f) (None, None)) = None \<Longrightarrow> right s = None \<Longrightarrow>
     right (processFrames fs s) = None \<and> rightVelocity (processFrames fs s) = rightVelocity s"
proof (induction fs arbitrary: s)
  case Nil
  then show ?case by simp
next
  case (Cons f fs)
  obtain now results where f: "f = (now, results)" by (cases f)
  from Cons.prems have d: "snd (detectLoop results (None, None)) = None" by (simp add: f)
  have l: "right (processResults now results s) = None"
    by (simp add: right_processResults d updateRight_absent)
  have v: "rightVelocity (processResults now results s) = rightVelocity s"
    by (simp add: rightVelocity_processResults d updateRight_absent)
  from Cons.IH[OF _ l] Cons.prems v show ?case by (simp add: f)
qed

text \<open>
  C8, amended.  On a frame where the hand's previous smoothed position is absent and the
  hand is detected, the new position is the raw mapped position of a detected hand, used
  unsmoothed, and the velocity keeps the value it had before the frame.  That value is
  zero when the hand has never been detected since tracking started.
\<close>

theorem first_frame_unsmoothed:
  "(left s = None \<and> fst (detectLoop results (None, None)) = Some raw
      \<longrightarrow> left (processResults now results s) = Some raw
          \<and> leftVelocity (processResults now results s) = leftVelocity s
          \<and> (\<exists>h \<in> set results. raw = mapHandToWorld (tipX h) (tipY h)))
   \<and> (right s = None \<and> snd (detectLoop results (None, None)) = Some raw
      \<longrightarrow> right (processResults now results s) = Some raw
          \<and> rightVelocity (processResults now results s) = rightVelocity s
          \<and> (\<exists>h \<in> set results. raw = mapHandToWorld (tipX h) (tipY h)))
   \<and> ((\<forall>f \<in> set fs. fst (detectLoop (snd f) (None, None)) = None)
        \<and> fst (detectLoop results (None, None)) = Some raw
      \<longrightarrow> leftVelocity (processResults now results (processFrames fs initialHands)) = Vector3 0 0 0)
   \<and> ((\<forall>f \<in> set fs. snd (detectLoop (snd f) (None, None)) = None)
        \<and> snd (detectLoop results (None, None)) = Some raw
      \<longrightarrow> rightVelocity (processResults now results (processFrames fs initialHands)) = Vector3 0 0 0)"
proof (intro conjI impI)
  assume a: "left s = None \<and> fst (detectLoop results (None, None)) = Some raw"
  then show "left (processResults now results s) = Some raw"
    by (simp add: left_processResults updateLeft_first)
  from a show "leftVelocity (processResults now results s) = leftVelocity s"
    by (simp add: leftVelocity_processResults updateLeft_first)
  from a detectLoop_fst[of results "(None, None)" raw]
  show "\<exists>h \<in> set results. raw = mapHandToWorld (tipX h) (tipY h)" by auto
next
  assume a: "right s = None \<and> snd (detectLoop results (None, None)) = Some raw"
  then show "right (processResults now results s) = Some raw"
    by (simp add: right_processResults updateRight_first)
  from a show "rightVelocity (processResults now results s) = rightVelocity s"
    by (simp add: rightVelocity_processResults updateRight_first)
  from a detectLoop_snd[of results "(None, None)" raw]
  show "\<exists>h \<in> set results. raw = mapHandToWorld (tipX h) (tipY h)" by auto
next
  assume a: "(\<forall>f \<in> set fs. fst (detectLoop (snd f) (None, None)) = None)
        \<and> fst (detectLoop results (None, None)) = Some raw"
  then have "left (processFrames fs initialHands) = None
      \<and> leftVelocity (processFrames fs initialHands) = leftVelocity initialHands"
    by (intro never_seen_left) (simp_all add: initialHands_def)
  with a show "leftVelocity (processResults now results (processFrames fs initialHands)) = Vector3 0 0 0"
    by (simp add: leftVelocity_processResults updateLeft_first initialHands_def)
next
  assume a: "(\<forall>f \<in> set fs. snd (detectLoop (snd f) (None, None)) = None)
        \<and> snd (detectLoop results (None, None)) = Some raw"
  then have "right (processFrames fs initialHands) = None
      \<and> rightVelocity (processFrames fs initialHands) = rightVelocity initialHands"
    by (intro never_seen_right) (simp_all add: initialHands_def)
  with a show "rightVelocity (processResults now results (processFrames fs initialHands)) = Vector3 0 0 0"
    by (simp add: rightVelocity_processResults updateRight_first initialHands_def)
qed

lemma gapFrames_state:
  "left (processFrames gapFrames initialHands) = None
   \<and> leftVelocity (processFrames gapFrames initialHands) = Vector3 56.25 0 0"
  by (simp add: gapFrames_def initialHands_def processResults_def Let_def leftAt_def
      mapHandToWorld_def updateLeft_def updateRight_def lerpVectors_def subVectors_def
      divideScalar_def LERP_def)

text \<open>
  C8, as the specification states it: on every frame on which the previous smoothed
  position is absent, a reappearance included, the reported velocity is zero.  After the
  left hand has moved and then been lost for a frame, it reappears with the velocity of
  its last move.
\<close>

theorem reappearance_velocity_counterexample:
  "left (processFrames gapFrames initialHands) = None
   \<and> left (processResults 1048 [leftAt 0.5 0.5] (processFrames gapFrames initialHands))
       = Some (mapHandToWorld 0.5 0.5)
   \<and> leftVelocity (processResults 1048 [leftAt 0.5 0.5] (processFrames gapFrames initialHands))
       = Vector3 56.25 0 0
   \<and> Vector3 56.25 0 0 \<noteq> Vector3 0 0 0"
proof -
  let ?s = "processFrames gapFrames initialHands"
  have d: "fst (detectLoop [leftAt 0.5 0.5] (None, None)) = Some (mapHandToWorld 0.5 0.5)"
    by (simp only: detect_one fst_conv)
  have l: "left (?s\<lparr>lastTimestamp := 1048\<rparr>) = None"
    using gapFrames_state by simp
  show ?thesis
    using gapFrames_state updateLeft_first[OF l]
    by (simp only: left_processResults leftVelocity_processResults d) simp
qed

theorem first_frame_unsmoothed_witness:
  "left initialHands = None
   \<and> fst (detectLoop [leftAt 0.5 0.5] (None, None)) = Some (Vector3 0 1.2 (- 0.12))
   \<and> left (processResults 1000 [leftAt 0.5 0.5] initialHands) = Some (Vector3 0 1.2 (- 0.12))
   \<and> leftVelocity (processResults 1000 [leftAt 0.5 0.5] initialHands) = Vector3 0 0 0"
proof -
  have h1: "left initialHands = None" by (simp add: initialHands_def)
  have h2: "fst (detectLoop [leftAt 0.5 0.5] (None, None)) = Some (Vector3 0 1.2 (- 0.12))"
    by (simp add: leftAt_def mapHandToWorld_def Let_def)
  have "left (processResults 1000 [leftAt 0.5 0.5] initialHands) = Some (Vector3 0 1.2 (- 0.12))
      \<and> leftVelocity (processResults 1000 [leftAt 0.5 0.5] initialHands) = leftVelocity initialHands"
    using first_frame_unsmoothed [where s = initialHands and results = "[leftAt 0.5 0.5]"
        and raw = "Vector3 0 1.2 (- 0.12)" and now = 1000] h1 h2
    by blast
  then show ?thesis using h1 h2 by (simp add: initialHands_def)
qed

section \<open>Score, combo and health: properties\<close>

lemma handleNoteMiss_health:
  "health (handleNoteMiss s) = (if health s - 10 \<le> 0 then 0 else health s - 10)"
  by (simp add: handleNoteMiss_def Let_def)

lemma handleNoteMiss_status:
  "status (handleNoteMiss s) = (if health s - 10 \<le> 0 then GAME_OVER else status s)"
  by (simp add: handleNoteMiss_def Let_def)

lemma handleNoteMiss_combo: "combo (handleNoteMiss s) = 0"
  by (simp add: handleNoteMiss_def Let_def)

lemma handleNoteMiss_score: "score (handleNoteMiss s) = score s"
  by (simp add: handleNoteMiss_def Let_def)

lemma handleNoteHit_health: "health (handleNoteHit s) = min 100 (health s + 1.5)"
  by (simp add: handleNoteHit_def)

lemma handleEvent_bounds:
  "0 \<le> health s \<Longrightarrow> health s \<le> 100 \<Longrightarrow>
     0 \<le> health (handleEvent e s) \<and> health (handleEvent e s) \<le> 100"
  by (cases e) (auto simp: handleNoteMiss_health handleNoteHit_health)

lemma handleEvents_bounds:
  "0 \<le> health s \<Longrightarrow> health s \<le> 100 \<Longrightarrow>
     0 \<le> health (handleEvents es s) \<and> health (handleEvents es s) \<le> 100"
proof (induction es arbitrary: s)
  case Nil
  then show ?case by simp
next
  case (Cons e es)
  from handleEvent_bounds[OF Cons.prems, of e] Cons.IH[of "handleEvent e s"]
  show ?case by simp
qed

lemma misses_health:
  "0 \<le> health s \<Longrightarrow>
     health (handleEvents (map MissEvent ks) s)
       = (if health s - 10 * real (length ks) \<le> 0 then 0 else health s - 10 * real (length ks))"
proof (induction ks arbitrary: s)
  case Nil
  then show ?case by simp
next
  case (Cons k ks)
  have "0 \<le> health (handleNoteMiss s)" by (simp add: handleNoteMiss_health)
  from Cons.IH[OF this] show ?case
    by (auto simp: handleNoteMiss_health algebra_simps)
qed

lemma misses_status_over:
  "status s = GAME_OVER \<Longrightarrow> status (handleEvents (map MissEvent ks) s) = GAME_OVER"
  by (induction ks arbitrary: s) (simp_all add: handleNoteMiss_status)

lemma misses_status:
  "0 < health s \<Longrightarrow>
     status (handleEvents (map MissEvent ks) s)
       = (if health s - 10 * real (length ks) \<le> 0 then GAME_OVER else status s)"
proof (induction ks arbitrary: s)
  case Nil
  then show ?case by simp
next
  case (Cons k ks)
  show ?case
  proof (cases "health s - 10 \<le> 0")
    case True
    then have "status (handleNoteMiss s) = GAME_OVER" by (simp add: handleNoteMiss_status)
    then have "status (handleEvents (map MissEvent ks) (handleNoteMiss s)) = GAME_OVER"
      by (rule misses_status_over)
    moreover have "health s - 10 * real (length (k # ks)) \<le> 0"
      using True by (simp add: algebra_simps)
    ultimately show ?thesis by simp
  next
    case False
    then have h: "health (handleNoteMiss s) = health s - 10" "status (handleNoteMiss s) = status s"
      by (simp_all add: handleNoteMiss_health handleNoteMiss_status)
    with False have "0 < health (handleNoteMiss s)" by simp
    from Cons.IH[OF this] h show ?thesis by (simp add: algebra_simps)
  qed
qed

lemma misses_combo:
  "ks \<noteq> [] \<Longrightarrow> combo (handleEvents (map MissEvent ks) s) = 0"
proof (induction ks arbitrary: s)
  case Nil
  then show ?case by simp
next
  case (Cons k ks)
  then show ?case by (cases ks) (simp_all add: handleNoteMiss_combo)
qed

text \<open>
  C4.  Health stays within [0, 100] under any sequence of Hit and Miss events.  A Miss
  resets the combo to 0 and subtracts 10 from the health; when the result would be
  \<le> 0 the health is set to 0 and the status to \<open>GAME_OVER\<close>.  A Hit adds 1.5,
  capped at 100.  From health 100, seven misses in a row leave health 30 (status
  unchanged), ten leave health 0 and status \<open>GAME_OVER\<close>.
\<close>

theorem health_clamped:
  "(0 \<le> health s \<and> health s \<le> 100
      \<longrightarrow> 0 \<le> health (handleEvents es s) \<and> health (handleEvents es s) \<le> 100)
   \<and> 0 \<le> health (handleEvents es startSession) \<and> health (handleEvents es startSession) \<le> 100
   \<and> health (handleNoteMiss s) = (if health s - 10 \<le> 0 then 0 else health s - 10)
   \<and> combo (handleNoteMiss s) = 0
   \<and> status (handleNoteMiss s) = (if health s - 10 \<le> 0 then GAME_OVER else status s)
   \<and> health (handleNoteHit s) = min 100 (health s + 1.5)
   \<and> (health s = 100 \<and> length ks = 7
      \<longrightarrow> health (handleEvents (map MissEvent ks) s) = 30
          \<and> status (handleEvents (map MissEvent ks) s) = status s)
   \<and> (health s = 100 \<and> length ks = 10
      \<longrightarrow> health (handleEvents (map MissEvent ks) s) = 0
          \<and> status (handleEvents (map MissEvent ks) s) = GAME_OVER)"
proof (intro conjI impI)
  assume "0 \<le> health s \<and> health s \<le> 100"
  then show "0 \<le> health (handleEvents es s)" "health (handleEvents es s) \<le> 100"
    using handleEvents_bounds[of s es] by simp_all
next
  show "0 \<le> health (handleEvents es startSession)" "health (handleEvents es startSession) \<le> 100"
    using handleEvents_bounds[of startSession es] by (simp_all add: startSession_def)
next
  show "health (handleNoteMiss s) = (if health s - 10 \<le> 0 then 0 else health s - 10)"
    by (rule handleNoteMiss_health)
  show "combo (handleNoteMiss s) = 0" by (rule handleNoteMiss_combo)
  show "status (handleNoteMiss s) = (if health s - 10 \<le> 0 then GAME_OVER else status s)"
    by (rule handleNoteMiss_status)
  show "health (handleNoteHit s) = min 100 (health s + 1.5)" by (rule handleNoteHit_health)
next
  assume a: "health s = 100 \<and> length ks = 7"
  then show "health (handleEvents (map MissEvent ks) s) = 30"
    by (simp add: misses_health)
  from a show "status (handleEvents (map MissEvent ks) s) = status s"
    by (simp add: misses_status)
next
  assume a: "health s = 100 \<and> length ks = 10"
  then show "health (handleEvents (map MissEvent ks) s) = 0"
    by (simp add: misses_health)
  from a show "status (handleEvents (map MissEvent ks) s) = GAME_OVER"
    by (simp add: misses_status)
qed

theorem health_clamped_witness:
  "0 \<le> health startSession \<and> health startSession \<le> 100
   \<and> health startSession = 100 \<and> length [0, 1, 2, 3, 4, 5, 6 :: nat] = 7
   \<and> length [0, 1, 2, 3, 4, 5, 6, 7, 8, 9 :: nat] = 10
   \<and> health (handleEvents (map MissEvent [0, 1, 2, 3, 4, 5, 6]) startSession) = 30
   \<and> status (handleEvents (map MissEvent [0, 1, 2, 3, 4, 5, 6]) startSession) = PLAYING
   \<and> health (handleEvents (map MissEvent [0, 1, 2, 3, 4, 5, 6, 7, 8, 9]) startSession) = 0
   \<and> status (handleEvents (map MissEvent [0, 1, 2, 3, 4, 5, 6, 7, 8, 9]) startSession) = GAME_OVER
   \<and> health (handleEvents [MissEvent 0, HitEvent 1 True] startSession) = 91.5"
proof -
  have h: "health startSession = 100" "status startSession = PLAYING"
    by (simp_all add: startSession_def)
  have b: "0 \<le> health startSession \<and> health startSession \<le> 100" using h by simp
  have l7: "length [0, 1, 2, 3, 4, 5, 6 :: nat] = 7" by simp
  have l10: "length [0, 1, 2, 3, 4, 5, 6, 7, 8, 9 :: nat] = 10" by simp
  from health_clamped [where s = startSession and ks = "[0, 1, 2, 3, 4, 5, 6]"] h(1) l7
  have c7: "health (handleEvents (map MissEvent [0, 1, 2, 3, 4, 5, 6]) startSession) = 30
       \<and> status (handleEvents (map MissEvent [0, 1, 2, 3, 4, 5, 6]) startSession) = status startSession"
    by blast
  from health_clamped [where s = startSession and ks = "[0, 1, 2, 3, 4, 5, 6, 7, 8, 9]"] h(1) l10
  have c10: "health (handleEvents (map MissEvent [0, 1, 2, 3, 4, 5, 6, 7, 8, 9]) startSession) = 0
       \<and> status (handleEvents (map MissEvent [0, 1, 2, 3, 4, 5, 6, 7, 8, 9]) startSession) = GAME_OVER"
    by blast
  have e: "health (handleEvents [MissEvent 0, HitEvent 1 True] startSession) = 91.5"
    by (simp add: startSession_def handleNoteMiss_def handleNoteHit_def Let_def)
  from b h l7 l10 c7 c10 e show ?thesis by simp
qed

section \<open>The scene: properties\<close>

lemma spawnAheadTime_value: "spawnAheadTime = 2.5"
  by (simp add: spawnAheadTime_def SPAWN_Z_def PLAYER_Z_def NOTE_SPEED_def)

lemma admitLoop_chart [simp]: "chart (admitLoop t s) = chart s"
proof (induction t s rule: admitLoop.induct)
  case (1 t s)
  show ?case
    by (subst admitLoop.simps) (use 1 in \<open>simp add: Let_def\<close>)
qed

lemma admitLoop_status [simp]: "gameStatus (admitLoop t s) = gameStatus s"
proof (induction t s rule: admitLoop.induct)
  case (1 t s)
  show ?case
    by (subst admitLoop.simps) (use 1 in \<open>simp add: Let_def\<close>)
qed

lemma admitLoop_index_mono: "nextNoteIndex s \<le> nextNoteIndex (admitLoop t s)"
proof (induction t s rule: admitLoop.induct)
  case (1 t s)
  show ?case
  proof (cases "nextNoteIndex s < length (chart s)
      \<and> time (chart s ! nextNoteIndex s) - spawnAheadTime \<le> t")
    case True
    with 1 have "nextNoteIndex s + 1 \<le> nextNoteIndex (admitLoop t
        (s\<lparr>activeNotes := activeNotes s @ [nextNoteIndex s], nextNoteIndex := nextNoteIndex s + 1\<rparr>))"
      by simp
    with True show ?thesis by (subst admitLoop.simps) (simp add: Let_def)
  next
    case False
    then show ?thesis by (subst admitLoop.simps) (auto simp: Let_def)
  qed
qed


lemma admitLoop_active:
  "activeNotes (admitLoop t s)
     = activeNotes s @ [nextNoteIndex s ..< nextNoteIndex (admitLoop t s)]"
proof (induction t s rule: admitLoop.induct)
  case (1 t s)
  show ?case
  proof (cases "nextNoteIndex s < length (chart s)
      \<and> time (chart s ! nextNoteIndex s) - spawnAheadTime \<le> t")
    case True
    let ?s' = "s\<lparr>activeNotes := activeNotes s @ [nextNoteIndex s], nextNoteIndex := nextNoteIndex s + 1\<rparr>"
    have eq: "admitLoop t s = admitLoop t ?s'"
      using True by (subst admitLoop.simps) (simp add: Let_def)
    have "nextNoteIndex ?s' \<le> nextNoteIndex (admitLoop t ?s')" by (rule admitLoop_index_mono)
    then have lt: "nextNoteIndex s < nextNoteIndex (admitLoop t ?s')" by simp
    from True 1 have "activeNotes (admitLoop t ?s')
        = activeNotes ?s' @ [nextNoteIndex ?s' ..< nextNoteIndex (admitLoop t ?s')]"
      by simp
    then show ?thesis unfolding eq using lt by (simp add: upt_conv_Cons)
  next
    case False
    then have "admitLoop t s = s" by (subst admitLoop.simps) (auto simp: Let_def)
    then show ?thesis by simp
  qed
qed

lemma admitLoop_due:
  "nextNoteIndex s \<le> k \<Longrightarrow> k < nextNoteIndex (admitLoop t s) \<Longrightarrow>
     k < length (chart s) \<and> time (chart s ! k) - spawnAheadTime \<le> t"
proof (induction t s rule: admitLoop.induct)
  case (1 t s)
  show ?case
  proof (cases "nextNoteIndex s < length (chart s)
      \<and> time (chart s ! nextNoteIndex s) - spawnAheadTime \<le> t")
    case True
    let ?s' = "s\<lparr>activeNotes := activeNotes s @ [nextNoteIndex s], nextNoteIndex := nextNoteIndex s + 1\<rparr>"
    have eq: "admitLoop t s = admitLoop t ?s'"
      using True by (subst admitLoop.simps) (simp add: Let_def)
    show ?thesis
    proof (cases "k = nextNoteIndex s")
      case True
      with \<open>nextNoteIndex s < length (chart s) \<and> _\<close> show ?thesis by simp
    next
      case False
      with "1.prems" have "nextNoteIndex ?s' \<le> k" "k < nextNoteIndex (admitLoop t ?s')"
        unfolding eq by simp_all
      with "1.IH"[OF _ refl] True show ?thesis by simp
    qed
  next
    case False
    then have "admitLoop t s = s" by (subst admitLoop.simps) (auto simp: Let_def)
    with "1.prems" show ?thesis by simp
  qed
qed

lemma admitLoop_stops:
  "nextNoteIndex (admitLoop t s) < length (chart s) \<Longrightarrow>
     \<not> time (chart s ! nextNoteIndex (admitLoop t s)) - spawnAheadTime \<le> t"
proof (induction t s rule: admitLoop.induct)
  case (1 t s)
  show ?case
  proof (cases "nextNoteIndex s < length (chart s)
      \<and> time (chart s ! nextNoteIndex s) - spawnAheadTime \<le> t")
    case True
    let ?s' = "s\<lparr>activeNotes := activeNotes s @ [nextNoteIndex s], nextNoteIndex := nextNoteIndex s + 1\<rparr>"
    have eq: "admitLoop t s = admitLoop t ?s'"
      using True by (subst admitLoop.simps) (simp add: Let_def)
    from "1.IH"[OF _ refl] True "1.prems" show ?thesis by (simp add: eq)
  next
    case False
    then have eq: "admitLoop t s = s" by (subst admitLoop.simps) (auto simp: Let_def)
    with False "1.prems" show ?thesis by simp
  qed
qed

lemma admitLoop_reaches:
  assumes srt: "sorted (map time (chart s))" and k: "k < length (chart s)"
    and due: "time (chart s ! k) - spawnAheadTime \<le> t"
  shows "k < nextNoteIndex (admitLoop t s)"
proof (rule ccontr)
  assume "\<not> k < nextNoteIndex (admitLoop t s)"
  then have le: "nextNoteIndex (admitLoop t s) \<le> k" by simp
  with k have lt: "nextNoteIndex (admitLoop t s) < length (chart s)" by simp
  from admitLoop_stops[OF lt]
  have "t < time (chart s ! nextNoteIndex (admitLoop t s)) - spawnAheadTime" by simp
  moreover have "time (chart s ! nextNoteIndex (admitLoop t s)) \<le> time (chart s ! k)"
    using sorted_nth_mono[OF srt, of "nextNoteIndex (admitLoop t s)" k] le k lt by simp
  ultimately show False using due by linarith
qed

lemma rounding_mono: "rounding ar \<Longrightarrow> x \<le> y \<Longrightarrow> fl ar x \<le> fl ar y"
  by (simp add: rounding_def)

lemma rounding_half:
  "rounding ar \<Longrightarrow> \<bar>n\<bar> \<le> 128 \<Longrightarrow> fl ar (real_of_int n / 2) = real_of_int n / 2"
  by (simp add: rounding_def)

lemma rounding_values:
  assumes "rounding ar"
  shows "fl ar 0 = 0" "fl ar 1 = 1" "fl ar (- 1) = - 1" "fl ar (1 / 2) = 1 / 2"
    "fl ar (5 / 2) = 5 / 2" "fl ar 30 = 30" "fl ar (- 30) = - 30"
  using rounding_half[OF assms, of 0] rounding_half[OF assms, of 2]
    rounding_half[OF assms, of "- 2"] rounding_half[OF assms, of 1]
    rounding_half[OF assms, of 5] rounding_half[OF assms, of 60]
    rounding_half[OF assms, of "- 60"]
  by simp_all

lemma rounding_exact: "rounding exactArith"
  by (simp add: rounding_def exactArith_def)

lemma window_bounds:
  assumes "rounding ar"
  shows "fl ar (PLAYER_Z - fl ar 1.2) \<le> - 1" "1 / 2 \<le> fl ar (PLAYER_Z + fl ar 0.6)"
    "fl ar (PLAYER_Z + fl ar 0.6) \<le> 1" "1 \<le> fl ar 1.1"
proof -
  note v = rounding_values[OF assms]
  have "fl ar 1 \<le> fl ar 1.2" by (rule rounding_mono[OF assms]) simp
  then have "PLAYER_Z - fl ar 1.2 \<le> - 1" by (simp add: v PLAYER_Z_def)
  from rounding_mono[OF assms this] show "fl ar (PLAYER_Z - fl ar 1.2) \<le> - 1" by (simp add: v)
  have a: "fl ar (1 / 2) \<le> fl ar 0.6" by (rule rounding_mono[OF assms]) simp
  have b: "fl ar 0.6 \<le> fl ar 1" by (rule rounding_mono[OF assms]) simp
  from a have "1 / 2 \<le> PLAYER_Z + fl ar 0.6" by (simp add: v PLAYER_Z_def)
  from rounding_mono[OF assms this] show "1 / 2 \<le> fl ar (PLAYER_Z + fl ar 0.6)" by (simp add: v)
  from b have "PLAYER_Z + fl ar 0.6 \<le> 1" by (simp add: v PLAYER_Z_def)
  from rounding_mono[OF assms this] show "fl ar (PLAYER_Z + fl ar 0.6) \<le> 1" by (simp add: v)
  have "fl ar 1 \<le> fl ar 1.1" by (rule rounding_mono[OF assms]) simp
  then show "1 \<le> fl ar 1.1" by (simp add: v)
qed

lemma window_below_miss: "rounding ar \<Longrightarrow> inWindow ar z \<Longrightarrow> \<not> z > MISS_Z"
  using window_bounds(3)[of ar] by (simp add: inWindow_def MISS_Z_def)


lemma judgeNote_skip:
  "resolved (chart s ! (activeNotes s ! i)) \<Longrightarrow> judgeNote ar t hands i (s, evs) = (s, evs)"
  by (simp add: judgeNote_def resolved_def Let_def)

lemma judgeNote_miss:
  "\<not> resolved (chart s ! (activeNotes s ! i)) \<Longrightarrow>
   currentZ ar t (chart s ! (activeNotes s ! i)) > MISS_Z \<Longrightarrow>
   judgeNote ar t hands i (s, evs) =
     (s\<lparr>chart := (chart s)[activeNotes s ! i := (chart s ! (activeNotes s ! i))\<lparr>missed := True\<rparr>],
        activeNotes := spliceAt i (activeNotes s)\<rparr>,
      evs @ [MissEvent (activeNotes s ! i)])"
  by (simp add: judgeNote_def resolved_def Let_def)

lemma judgeNote_hit:
  "\<not> resolved (chart s ! (activeNotes s ! i)) \<Longrightarrow>
   \<not> currentZ ar t (chart s ! (activeNotes s ! i)) > MISS_Z \<Longrightarrow>
   inWindow ar (currentZ ar t (chart s ! (activeNotes s ! i))) \<Longrightarrow>
   handFor hands (chart s ! (activeNotes s ! i)) = Some p \<Longrightarrow>
   distanceTo ar p (notePos ar t (chart s ! (activeNotes s ! i))) < fl ar 1.1 \<Longrightarrow>
   judgeNote ar t hands i (s, evs) =
     (s\<lparr>chart := (chart s)[activeNotes s ! i :=
              (chart s ! (activeNotes s ! i))\<lparr>hit := True, hitTime := Some t\<rparr>],
        activeNotes := spliceAt i (activeNotes s)\<rparr>,
      evs @ [HitEvent (activeNotes s ! i) True])"
  by (simp add: judgeNote_def resolved_def Let_def handFor_def notePos_def inWindow_def)

text \<open>The three outcomes of one pass of the loop body.\<close>

lemma judgeNote_cases:
  obtains
    (same) "judgeNote ar t hands i (s, evs) = (s, evs)"
  | (miss) "\<not> resolved (chart s ! (activeNotes s ! i))"
      "currentZ ar t (chart s ! (activeNotes s ! i)) > MISS_Z"
      "judgeNote ar t hands i (s, evs) =
         (s\<lparr>chart := (chart s)[activeNotes s ! i := (chart s ! (activeNotes s ! i))\<lparr>missed := True\<rparr>],
            activeNotes := spliceAt i (activeNotes s)\<rparr>,
          evs @ [MissEvent (activeNotes s ! i)])"
  | (hit) p where "\<not> resolved (chart s ! (activeNotes s ! i))"
      "inWindow ar (currentZ ar t (chart s ! (activeNotes s ! i)))"
      "handFor hands (chart s ! (activeNotes s ! i)) = Some p"
      "distanceTo ar p (notePos ar t (chart s ! (activeNotes s ! i))) < fl ar 1.1"
      "judgeNote ar t hands i (s, evs) =
         (s\<lparr>chart := (chart s)[activeNotes s ! i :=
                  (chart s ! (activeNotes s ! i))\<lparr>hit := True, hitTime := Some t\<rparr>],
            activeNotes := spliceAt i (activeNotes s)\<rparr>,
          evs @ [HitEvent (activeNotes s ! i) True])"
proof -
  let ?note = "chart s ! (activeNotes s ! i)"
  show thesis
  proof (cases "resolved ?note")
    case True
    then show ?thesis using same by (simp add: judgeNote_skip)
  next
    case unres: False
    show ?thesis
    proof (cases "currentZ ar t ?note > MISS_Z")
      case True
      with unres show ?thesis using miss by (simp add: judgeNote_miss)
    next
      case nomiss: False
      show ?thesis
      proof (cases "inWindow ar (currentZ ar t ?note)
          \<and> (\<exists>p. handFor hands ?note = Some p \<and> distanceTo ar p (notePos ar t ?note) < fl ar 1.1)")
        case True
        then obtain p where "handFor hands ?note = Some p" "distanceTo ar p (notePos ar t ?note) < fl ar 1.1"
          by blast
        with True unres nomiss show ?thesis using hit[of p] by (simp add: judgeNote_hit)
      next
        case False
        with unres nomiss have "judgeNote ar t hands i (s, evs) = (s, evs)"
          by (auto simp: judgeNote_def resolved_def Let_def handFor_def notePos_def inWindow_def
              split: option.splits)
        then show ?thesis using same by simp
      qed
    qed
  qed
qed


lemma set_spliceAt_sub: "set (spliceAt i xs) \<subseteq> set xs"
  by (auto simp: spliceAt_def dest: in_set_takeD in_set_dropD)

lemma take_spliceAt: "take i (spliceAt i xs) = take i xs"
  by (simp add: spliceAt_def min_def)

lemma length_spliceAt: "i < length xs \<Longrightarrow> length (spliceAt i xs) = length xs - 1"
  by (simp add: spliceAt_def)

lemma nth_update_any: "xs[k := v] ! j = (if j = k \<and> k < length xs then v else xs ! j)"
  by (cases "k < length xs") (auto simp: nth_list_update list_update_beyond)

lemma judgeNote_length:
  "length (chart (fst (judgeNote ar t hands i (s, evs)))) = length (chart s)"
  by (cases rule: judgeNote_cases[of ar t hands i s evs]) simp_all

lemma judgeNote_status:
  "gameStatus (fst (judgeNote ar t hands i (s, evs))) = gameStatus s
   \<and> nextNoteIndex (fst (judgeNote ar t hands i (s, evs))) = nextNoteIndex s"
  by (cases rule: judgeNote_cases[of ar t hands i s evs]) simp_all

lemma judgeNote_other:
  "k \<noteq> activeNotes s ! i \<Longrightarrow> chart (fst (judgeNote ar t hands i (s, evs))) ! k = chart s ! k"
  by (cases rule: judgeNote_cases[of ar t hands i s evs]) simp_all

lemma judgeNote_resolved_same:
  "resolved (chart s ! k) \<Longrightarrow> chart (fst (judgeNote ar t hands i (s, evs))) ! k = chart s ! k"
  by (cases "k = activeNotes s ! i") (simp_all add: judgeNote_skip judgeNote_other)

lemma judgeNote_inv:
  assumes "noteInv (chart s ! k)"
  shows "noteInv (chart (fst (judgeNote ar t hands i (s, evs))) ! k)"
proof (cases "k = activeNotes s ! i \<and> k < length (chart s)")
  case True
  then show ?thesis using assms
    by (cases rule: judgeNote_cases[of ar t hands i s evs])
      (auto simp: noteInv_def resolved_def)
next
  case False
  then show ?thesis using assms
    by (cases rule: judgeNote_cases[of ar t hands i s evs]) (auto simp: nth_update_any)
qed

lemma judgeNote_fields:
  "time (chart (fst (judgeNote ar t hands i (s, evs))) ! k) = time (chart s ! k)
   \<and> noteType (chart (fst (judgeNote ar t hands i (s, evs))) ! k) = noteType (chart s ! k)
   \<and> lineIndex (chart (fst (judgeNote ar t hands i (s, evs))) ! k) = lineIndex (chart s ! k)"
proof (cases "k = activeNotes s ! i \<and> k < length (chart s)")
  case True
  then show ?thesis
    by (cases rule: judgeNote_cases[of ar t hands i s evs]) auto
next
  case False
  then show ?thesis
    by (cases rule: judgeNote_cases[of ar t hands i s evs]) (auto simp: nth_update_any)
qed

lemma judgeNote_take:
  "take i (activeNotes (fst (judgeNote ar t hands i (s, evs)))) = take i (activeNotes s)"
  by (cases rule: judgeNote_cases[of ar t hands i s evs]) (simp_all add: take_spliceAt)

lemma judgeNote_active_length:
  "i < length (activeNotes s) \<Longrightarrow> i \<le> length (activeNotes (fst (judgeNote ar t hands i (s, evs))))"
  by (cases rule: judgeNote_cases[of ar t hands i s evs]) (simp_all add: length_spliceAt)

lemma judgeNote_active_sub:
  "set (activeNotes (fst (judgeNote ar t hands i (s, evs)))) \<subseteq> set (activeNotes s)"
  by (cases rule: judgeNote_cases[of ar t hands i s evs]) (simp_all add: set_spliceAt_sub)


lemma judgeNote_events:
  "\<exists>new. snd (judgeNote ar t hands i (s, evs)) = evs @ new"
  by (cases rule: judgeNote_cases[of ar t hands i s evs]) simp_all




text \<open>The same facts for the whole judgement loop.\<close>

lemma judgeLoop_length:
  "length (chart (fst (judgeLoop ar t hands n (s, evs)))) = length (chart s)"
proof (induction n arbitrary: s evs)
  case 0
  then show ?case by simp
next
  case (Suc n)
  obtain s1 evs1 where st: "judgeNote ar t hands n (s, evs) = (s1, evs1)"
    by (cases "judgeNote ar t hands n (s, evs)")
  from judgeNote_length[of ar t hands n s evs] Suc[of s1 evs1] show ?case by (simp add: st)
qed

lemma judgeLoop_status:
  "gameStatus (fst (judgeLoop ar t hands n (s, evs))) = gameStatus s
   \<and> nextNoteIndex (fst (judgeLoop ar t hands n (s, evs))) = nextNoteIndex s"
proof (induction n arbitrary: s evs)
  case 0
  then show ?case by simp
next
  case (Suc n)
  obtain s1 evs1 where st: "judgeNote ar t hands n (s, evs) = (s1, evs1)"
    by (cases "judgeNote ar t hands n (s, evs)")
  from judgeNote_status[of ar t hands n s evs] Suc[of s1 evs1] show ?case by (simp add: st)
qed

lemma judgeLoop_resolved_same:
  "resolved (chart s ! k) \<Longrightarrow> chart (fst (judgeLoop ar t hands n (s, evs))) ! k = chart s ! k"
proof (induction n arbitrary: s evs)
  case 0
  then show ?case by simp
next
  case (Suc n)
  obtain s1 evs1 where st: "judgeNote ar t hands n (s, evs) = (s1, evs1)"
    by (cases "judgeNote ar t hands n (s, evs)")
  from judgeNote_resolved_same[OF Suc.prems, of ar t hands n evs]
  have eq: "chart s1 ! k = chart s ! k" by (simp add: st)
  with Suc.prems have "resolved (chart s1 ! k)" by simp
  from Suc.IH[OF this, of evs1] eq show ?case by (simp add: st)
qed

lemma judgeLoop_inv:
  "noteInv (chart s ! k) \<Longrightarrow> noteInv (chart (fst (judgeLoop ar t hands n (s, evs))) ! k)"
proof (induction n arbitrary: s evs)
  case 0
  then show ?case by simp
next
  case (Suc n)
  obtain s1 evs1 where st: "judgeNote ar t hands n (s, evs) = (s1, evs1)"
    by (cases "judgeNote ar t hands n (s, evs)")
  from judgeNote_inv[OF Suc.prems, of ar t hands n evs]
  have "noteInv (chart s1 ! k)" by (simp add: st)
  from Suc.IH[OF this, of evs1] show ?case by (simp add: st)
qed

lemma judgeLoop_fields:
  "time (chart (fst (judgeLoop ar t hands n (s, evs))) ! k) = time (chart s ! k)
   \<and> noteType (chart (fst (judgeLoop ar t hands n (s, evs))) ! k) = noteType (chart s ! k)
   \<and> lineIndex (chart (fst (judgeLoop ar t hands n (s, evs))) ! k) = lineIndex (chart s ! k)"
proof (induction n arbitrary: s evs)
  case 0
  then show ?case by simp
next
  case (Suc n)
  obtain s1 evs1 where st: "judgeNote ar t hands n (s, evs) = (s1, evs1)"
    by (cases "judgeNote ar t hands n (s, evs)")
  from judgeNote_fields[of ar t hands n s evs k] Suc[of s1 evs1] show ?case by (simp add: st)
qed

lemma judgeLoop_events:
  "\<exists>new. snd (judgeLoop ar t hands n (s, evs)) = evs @ new"
proof (induction n arbitrary: s evs)
  case 0
  then show ?case by simp
next
  case (Suc n)
  obtain s1 evs1 where st: "judgeNote ar t hands n (s, evs) = (s1, evs1)"
    by (cases "judgeNote ar t hands n (s, evs)")
  from judgeNote_events[of ar t hands n s evs] obtain new1 where "evs1 = evs @ new1"
    by (auto simp: st)
  moreover from Suc[of s1 evs1] obtain new2
    where "snd (judgeLoop ar t hands n (s1, evs1)) = evs1 @ new2" by blast
  ultimately show ?case by (simp add: st)
qed

lemma judgeLoop_event_kept:
  "e \<in> set evs \<Longrightarrow> e \<in> set (snd (judgeLoop ar t hands n (s, evs)))"
  using judgeLoop_events[of ar t hands n s evs] by auto




lemma judgeLoop_hits:
  "j < n \<Longrightarrow> n \<le> length (activeNotes s) \<Longrightarrow> activeNotes s ! j = k \<Longrightarrow> k < length (chart s) \<Longrightarrow>
   \<not> resolved (chart s ! k) \<Longrightarrow> inWindow ar (currentZ ar t (chart s ! k)) \<Longrightarrow>
   handFor hands (chart s ! k) = Some p \<Longrightarrow> distanceTo ar p (notePos ar t (chart s ! k)) < fl ar 1.1 \<Longrightarrow>
   \<not> currentZ ar t (chart s ! k) > MISS_Z \<Longrightarrow>
   chart (fst (judgeLoop ar t hands n (s, evs))) ! k = (chart s ! k)\<lparr>hit := True, hitTime := Some t\<rparr>
   \<and> HitEvent k True \<in> set (snd (judgeLoop ar t hands n (s, evs)))"
proof (induction n arbitrary: s evs)
  case 0
  then show ?case by simp
next
  case (Suc n)
  obtain s1 evs1 where st: "judgeNote ar t hands n (s, evs) = (s1, evs1)"
    by (cases "judgeNote ar t hands n (s, evs)")
  show ?case
  proof (cases "activeNotes s ! n = k")
    case True
    from Suc.prems True
    have "judgeNote ar t hands n (s, evs) =
      (s\<lparr>chart := (chart s)[k := (chart s ! k)\<lparr>hit := True, hitTime := Some t\<rparr>],
         activeNotes := spliceAt n (activeNotes s)\<rparr>, evs @ [HitEvent k True])"
      using judgeNote_hit[of s n ar t hands p evs] by simp
    with st Suc.prems(4)
    have c1: "chart s1 ! k = (chart s ! k)\<lparr>hit := True, hitTime := Some t\<rparr>"
      and e1: "HitEvent k True \<in> set evs1" by auto
    from c1 have "resolved (chart s1 ! k)" by (simp add: resolved_def)
    from judgeLoop_resolved_same[OF this, of ar t hands n evs1] c1
      judgeLoop_event_kept[OF e1, of ar t hands n s1]
    show ?thesis by (simp add: st)
  next
    case False
    with Suc.prems(1,3) have jn: "j < n" by (cases "j = n") auto
    have ck: "chart s1 ! k = chart s ! k"
      using judgeNote_other[of k s n ar t hands evs] False by (simp add: st)
    have "take n (activeNotes s1) = take n (activeNotes s)"
      using judgeNote_take[of n ar t hands s evs] by (simp add: st)
    then have "take n (activeNotes s1) ! j = take n (activeNotes s) ! j" by simp
    with jn Suc.prems(3) have aj: "activeNotes s1 ! j = k" by simp
    have len: "n \<le> length (activeNotes s1)"
      using judgeNote_active_length[of n s ar t hands evs] Suc.prems(2) by (simp add: st)
    have cl: "k < length (chart s1)"
      using judgeNote_length[of ar t hands n s evs] Suc.prems(4) by (simp add: st)
    from Suc.IH[OF jn len aj cl, of evs1] Suc.prems(5-9) ck
    show ?thesis by (simp add: st)
  qed
qed


lemma useFrame_playing:
  "gameStatus s = PLAYING \<Longrightarrow>
     useFrame ar t hands s = judgeLoop ar t hands (length (activeNotes (admitLoop t s))) (admitLoop t s, [])"
  by (simp add: useFrame_def Let_def)

lemma useFrame_idle: "gameStatus s \<noteq> PLAYING \<Longrightarrow> useFrame ar t hands s = (s, [])"
  by (simp add: useFrame_def)

lemma useFrame_hits:
  assumes "gameStatus s = PLAYING" and "k \<in> set (activeNotes (admitLoop t s))"
    and "k < length (chart s)" and "\<not> resolved (chart s ! k)"
    and "inWindow ar (currentZ ar t (chart s ! k))" and "handFor hands (chart s ! k) = Some p"
    and "distanceTo ar p (notePos ar t (chart s ! k)) < fl ar 1.1"
    and "\<not> currentZ ar t (chart s ! k) > MISS_Z"
  shows "chart (fst (useFrame ar t hands s)) ! k = (chart s ! k)\<lparr>hit := True, hitTime := Some t\<rparr>
         \<and> HitEvent k True \<in> set (snd (useFrame ar t hands s))"
proof -
  from assms(2) obtain j where j: "j < length (activeNotes (admitLoop t s))"
      "activeNotes (admitLoop t s) ! j = k"
    by (auto simp: in_set_conv_nth)
  from judgeLoop_hits[OF j(1) le_refl j(2), of ar t hands p "[]"] assms
  show ?thesis by (simp add: useFrame_playing)
qed









lemma step_length: "length (chart (fst (sceneStep ar inp s))) = length (chart s)"
proof (cases inp)
  case (Frame t hands)
  then show ?thesis
    by (cases "gameStatus s = PLAYING")
      (simp_all add: useFrame_playing useFrame_idle judgeLoop_length)
next
  case (StatusChange g)
  then show ?thesis by (simp add: setGameStatus_def resetEffect_def)
qed

lemma step_fields:
  "time (chart (fst (sceneStep ar inp s)) ! k) = time (chart s ! k)
   \<and> noteType (chart (fst (sceneStep ar inp s)) ! k) = noteType (chart s ! k)
   \<and> lineIndex (chart (fst (sceneStep ar inp s)) ! k) = lineIndex (chart s ! k)"
proof (cases inp)
  case (Frame t hands)
  then show ?thesis
    by (cases "gameStatus s = PLAYING")
      (simp_all add: useFrame_playing useFrame_idle judgeLoop_fields)
next
  case (StatusChange g)
  then show ?thesis by (simp add: setGameStatus_def resetEffect_def)
qed

lemma step_resolved_same:
  "resolved (chart s ! k) \<Longrightarrow> chart (fst (sceneStep ar inp s)) ! k = chart s ! k"
proof (cases inp)
  case (Frame t hands)
  assume "resolved (chart s ! k)"
  then have "resolved (chart (admitLoop t s) ! k)" by simp
  from judgeLoop_resolved_same[OF this] Frame show ?thesis
    by (cases "gameStatus s = PLAYING") (simp_all add: useFrame_playing useFrame_idle)
next
  case (StatusChange g)
  then show ?thesis by (simp add: setGameStatus_def resetEffect_def)
qed

lemma step_inv: "noteInv (chart s ! k) \<Longrightarrow> noteInv (chart (fst (sceneStep ar inp s)) ! k)"
proof (cases inp)
  case (Frame t hands)
  assume "noteInv (chart s ! k)"
  then have "noteInv (chart (admitLoop t s) ! k)" by simp
  from judgeLoop_inv[OF this] Frame \<open>noteInv (chart s ! k)\<close> show ?thesis
    by (cases "gameStatus s = PLAYING") (simp_all add: useFrame_playing useFrame_idle)
next
  case (StatusChange g)
  assume "noteInv (chart s ! k)"
  with StatusChange show ?thesis by (simp add: setGameStatus_def resetEffect_def)
qed



lemma run_append: "runScene ar (tr1 @ tr2) s = runScene ar tr2 (runScene ar tr1 s)"
  by (induction tr1 arbitrary: s) simp_all

lemma run_length: "length (chart (runScene ar tr s)) = length (chart s)"
  by (induction tr arbitrary: s) (simp_all add: step_length)



lemma run_resolved_same:
  "resolved (chart s ! k) \<Longrightarrow> chart (runScene ar tr s) ! k = chart s ! k"
proof (induction tr arbitrary: s)
  case Nil
  then show ?case by simp
next
  case (Cons inp tr)
  from step_resolved_same[OF Cons.prems, of ar inp]
  have eq: "chart (fst (sceneStep ar inp s)) ! k = chart s ! k" .
  with Cons.prems have "resolved (chart (fst (sceneStep ar inp s)) ! k)" by simp
  from Cons.IH[OF this] eq show ?case by simp
qed

lemma run_inv: "noteInv (chart s ! k) \<Longrightarrow> noteInv (chart (runScene ar tr s) ! k)"
  by (induction tr arbitrary: s) (simp_all add: step_inv)


lemma mkNote_fresh: "\<not> hit (mkNote c t l h) \<and> \<not> missed (mkNote c t l h) \<and> hitTime (mkNote c t l h) = None"
  by (simp add: mkNote_def)

lemma chartStep_fresh:
  "chartStep b rnd i idCount rc = (pushed, idCount', rc') \<Longrightarrow> n \<in> set pushed \<Longrightarrow>
     \<not> hit n \<and> \<not> missed n \<and> hitTime n = None"
  by (auto simp: chartStep_def Let_def mkNote_fresh split: if_splits)

lemma chartLoop_fresh:
  "n \<in> set (chartLoop b rnd i idCount rc) \<Longrightarrow> \<not> hit n \<and> \<not> missed n \<and> hitTime n = None"
proof (induction b rnd i idCount rc rule: chartLoop.induct)
  case (1 b rnd i idCount rc)
  show ?case
  proof (cases "i < 200")
    case False
    with "1.prems" show ?thesis by (simp add: chartLoop.simps)
  next
    case True
    obtain pushed idCount' rc' where st: "chartStep b rnd i idCount rc = (pushed, idCount', rc')"
      by (cases "chartStep b rnd i idCount rc") auto
    from True st "1.prems"
    have "n \<in> set pushed \<or> n \<in> set (chartLoop b rnd (i + 1.5) idCount' rc')"
      by (subst (asm) chartLoop.simps) auto
    then show ?thesis
    proof
      assume "n \<in> set pushed"
      with st show ?thesis by (rule chartStep_fresh)
    next
      assume "n \<in> set (chartLoop b rnd (i + 1.5) idCount' rc')"
      with "1.IH"[OF True st[symmetric] refl] show ?thesis by simp
    qed
  qed
qed

lemma generated_fresh:
  "n \<in> set (generateDemoChart rnd) \<Longrightarrow> \<not> hit n \<and> \<not> missed n \<and> hitTime n = None"
  by (simp add: generateDemoChart_def chartLoop_fresh)

lemma distanceTo_self: "rounding ar \<Longrightarrow> distanceTo ar p p = 0"
  by (simp add: distanceTo_def rounding_values rounding_def)




lemma start_chart: "chart (startScene c) = c"
  by (simp add: startScene_def)




text \<open>
  C2.  For every note at every point of a run of the scene (frames and status changes in
  any order, under any arithmetic): \<open>hit\<close> and \<open>missed\<close> are never both set and
  \<open>hitTime\<close> is set exactly when \<open>hit\<close> is.  This holds of every generated note and is
  kept by every input.  Once a note is hit or missed, no later input changes it in any
  way: a note makes at most one transition.
\<close>

theorem note_flags_invariant:
  "(noteInv n \<longleftrightarrow> \<not> (hit n \<and> missed n) \<and> ((hitTime n \<noteq> None) = hit n))
   \<and> (\<forall>n \<in> set (generateDemoChart rnd). noteInv n)
   \<and> (j < length (generateDemoChart rnd)
      \<longrightarrow> noteInv (chart (runScene ar tr (startScene (generateDemoChart rnd))) ! j))
   \<and> length (chart (runScene ar tr s)) = length (chart s)
   \<and> (noteInv (chart s ! k) \<longrightarrow> noteInv (chart (runScene ar tr s) ! k))
   \<and> (hit (chart (runScene ar tr s) ! k) \<or> missed (chart (runScene ar tr s) ! k)
      \<longrightarrow> chart (runScene ar (tr @ tr') s) ! k = chart (runScene ar tr s) ! k)"
proof (intro conjI)
  show "noteInv n \<longleftrightarrow> \<not> (hit n \<and> missed n) \<and> ((hitTime n \<noteq> None) = hit n)"
    by (simp add: noteInv_def)
  show g: "\<forall>n \<in> set (generateDemoChart rnd). noteInv n"
    using generated_fresh[of _ rnd] by (auto simp: noteInv_def)
  show "j < length (generateDemoChart rnd)
      \<longrightarrow> noteInv (chart (runScene ar tr (startScene (generateDemoChart rnd))) ! j)"
  proof
    assume "j < length (generateDemoChart rnd)"
    with g have "noteInv (chart (startScene (generateDemoChart rnd)) ! j)"
      by (simp add: start_chart)
    then show "noteInv (chart (runScene ar tr (startScene (generateDemoChart rnd))) ! j)"
      by (rule run_inv)
  qed
  show "length (chart (runScene ar tr s)) = length (chart s)" by (rule run_length)
  show "noteInv (chart s ! k) \<longrightarrow> noteInv (chart (runScene ar tr s) ! k)"
    using run_inv[of s k ar tr] by blast
  show "hit (chart (runScene ar tr s) ! k) \<or> missed (chart (runScene ar tr s) ! k)
      \<longrightarrow> chart (runScene ar (tr @ tr') s) ! k = chart (runScene ar tr s) ! k"
    using run_resolved_same[of "runScene ar tr s" k ar tr'] by (simp add: run_append resolved_def)
qed

lemma frame_status: "gameStatus (fst (useFrame ar t hands s)) = gameStatus s"
  by (cases "gameStatus s = PLAYING") (simp_all add: useFrame_playing useFrame_idle judgeLoop_status)

lemma frame_index:
  "nextNoteIndex (fst (useFrame ar t hands s))
     = (if gameStatus s = PLAYING then nextNoteIndex (admitLoop t s) else nextNoteIndex s)"
  by (simp add: useFrame_playing useFrame_idle judgeLoop_status)

lemma admitted_frame:
  "map fst (admitted (Frame t hands) s)
     = [nextNoteIndex s ..< nextNoteIndex (fst (useFrame ar t hands s))]"
proof (cases "gameStatus s = PLAYING")
  case True
  have "drop (length (activeNotes s)) (activeNotes (admitLoop t s))
          = [nextNoteIndex s ..< nextNoteIndex (admitLoop t s)]"
    by (subst admitLoop_active) simp
  with True show ?thesis by (simp add: frame_index comp_def)
next
  case False
  then show ?thesis by (simp add: frame_index)
qed

lemma admitted_due:
  assumes "(k, t) \<in> set (admitted inp s)"
  shows "k < length (chart s) \<and> time (chart s ! k) - spawnAheadTime \<le> t"
proof (cases inp)
  case (Frame t' hands)
  with assms have p: "gameStatus s = PLAYING" and tt: "t = t'"
    and "k \<in> set (drop (length (activeNotes s)) (activeNotes (admitLoop t' s)))"
    by (auto split: if_splits)
  then have "k \<in> set [nextNoteIndex s ..< nextNoteIndex (admitLoop t' s)]"
    by (subst (asm) admitLoop_active) simp
  then have "nextNoteIndex s \<le> k" "k < nextNoteIndex (admitLoop t' s)" by simp_all
  from admitLoop_due[OF this] tt show ?thesis by simp
next
  case (StatusChange g)
  with assms show ?thesis by simp
qed

lemma admissions_due:
  "(k, t) \<in> set (admissions ar tr s) \<Longrightarrow>
     k < length (chart s) \<and> time (chart s ! k) - spawnAheadTime \<le> t"
proof (induction tr arbitrary: s)
  case Nil
  then show ?case by simp
next
  case (Cons inp tr)
  from Cons.prems have "(k, t) \<in> set (admitted inp s)
      \<or> (k, t) \<in> set (admissions ar tr (fst (sceneStep ar inp s)))" by auto
  then show ?case
  proof
    assume "(k, t) \<in> set (admitted inp s)"
    then show ?thesis by (rule admitted_due)
  next
    assume "(k, t) \<in> set (admissions ar tr (fst (sceneStep ar inp s)))"
    from Cons.IH[OF this] show ?thesis by (simp add: step_length step_fields)
  qed
qed

lemma frame_index_mono: "nextNoteIndex s \<le> nextNoteIndex (fst (useFrame ar t hands s))"
  by (simp add: frame_index admitLoop_index_mono)

lemma frames_admissions:
  "\<forall>inp \<in> set tr. isFrame inp \<Longrightarrow>
     nextNoteIndex s \<le> nextNoteIndex (runScene ar tr s)
     \<and> map fst (admissions ar tr s) = [nextNoteIndex s ..< nextNoteIndex (runScene ar tr s)]"
proof (induction tr arbitrary: s)
  case Nil
  then show ?case by simp
next
  case (Cons inp tr)
  from Cons.prems obtain t hands where inp: "inp = Frame t hands" by (cases inp) auto
  let ?s1 = "fst (useFrame ar t hands s)"
  have m1: "nextNoteIndex s \<le> nextNoteIndex ?s1" by (rule frame_index_mono)
  from Cons.IH[of ?s1] Cons.prems
  have m2: "nextNoteIndex ?s1 \<le> nextNoteIndex (runScene ar tr ?s1)"
    and a2: "map fst (admissions ar tr ?s1) = [nextNoteIndex ?s1 ..< nextNoteIndex (runScene ar tr ?s1)]"
    by simp_all
  have "[nextNoteIndex s ..< nextNoteIndex ?s1] @ [nextNoteIndex ?s1 ..< nextNoteIndex (runScene ar tr ?s1)]
      = [nextNoteIndex s ..< nextNoteIndex (runScene ar tr ?s1)]"
    using m1 m2 by (metis le_Suc_ex upt_add_eq_append)
  with m1 m2 a2 show ?case
    by (simp add: inp admitted_frame[where ar = ar] del: admitted.simps)
qed

lemma frames_status:
  "\<forall>inp \<in> set tr. isFrame inp \<Longrightarrow> gameStatus (runScene ar tr s) = gameStatus s"
proof (induction tr arbitrary: s)
  case Nil
  then show ?case by simp
next
  case (Cons inp tr)
  from Cons.prems obtain t hands where inp: "inp = Frame t hands" by (cases inp) auto
  from Cons show ?case by (simp add: inp frame_status)
qed

lemma count_list_upt: "count_list [a ..< b] k = (if a \<le> k \<and> k < b then 1 else 0)"
  by (induction b) auto

lemma due_is_admitted:
  "sorted (map time (chart s)) \<Longrightarrow> gameStatus s = PLAYING \<Longrightarrow> \<forall>inp \<in> set tr. isFrame inp \<Longrightarrow>
   Frame t hands \<in> set tr \<Longrightarrow> k < length (chart s) \<Longrightarrow>
   time (chart s ! k) - spawnAheadTime \<le> t \<Longrightarrow> k < nextNoteIndex (runScene ar tr s)"
proof (induction tr arbitrary: s)
  case Nil
  then show ?case by simp
next
  case (Cons inp tr)
  from Cons.prems(3) obtain t' hands' where inp: "inp = Frame t' hands'" by (cases inp) auto
  let ?s1 = "fst (useFrame ar t' hands' s)"
  from Cons.prems(3) have fr: "\<forall>i \<in> set tr. isFrame i" by simp
  show ?case
  proof (cases "Frame t hands = inp")
    case True
    then have tt: "t' = t" by (simp add: inp)
    have "k < nextNoteIndex (admitLoop t s)"
      using Cons.prems(1,5,6) by (rule admitLoop_reaches)
    then have "k < nextNoteIndex ?s1" using Cons.prems(2) by (simp add: frame_index tt)
    moreover have "nextNoteIndex ?s1 \<le> nextNoteIndex (runScene ar tr ?s1)"
      using frames_admissions[OF fr, of ?s1 ar] by simp
    ultimately show ?thesis by (simp add: inp)
  next
    case False
    with Cons.prems(4) have mem: "Frame t hands \<in> set tr" by auto
    have st: "fst (sceneStep ar inp s) = ?s1" by (simp add: inp)
    have s1: "sorted (map time (chart ?s1))"
    proof -
      have "map time (chart ?s1) = map time (chart s)"
        using step_length[of ar inp s] step_fields[of ar inp s]
        by (intro nth_equalityI) (simp_all add: st)
      with Cons.prems(1) show ?thesis by simp
    qed
    have p1: "gameStatus ?s1 = PLAYING" using Cons.prems(2) by (simp add: frame_status)
    have l1: "k < length (chart ?s1)" using Cons.prems(5) step_length[of ar inp s] by (simp add: st)
    have "time (chart ?s1 ! k) = time (chart s ! k)" using step_fields[of ar inp s k] by (simp add: st)
    with Cons.prems(6) have d1: "time (chart ?s1 ! k) - spawnAheadTime \<le> t" by simp
    from Cons.IH[OF s1 p1 fr mem l1 d1] show ?thesis by (simp add: inp)
  qed
qed

lemma due_admitted_once:
  assumes "sorted (map time (chart s))" and "gameStatus s = PLAYING"
    and "\<forall>inp \<in> set tr. isFrame inp" and "Frame t hands \<in> set tr"
    and "nextNoteIndex s \<le> k" and "k < length (chart s)"
    and "time (chart s ! k) - spawnAheadTime \<le> t"
  shows "count_list (map fst (admissions ar tr s)) k = 1"
proof -
  have "k < nextNoteIndex (runScene ar tr s)"
    using assms(1,2,3,4,6,7) by (rule due_is_admitted)
  moreover have "map fst (admissions ar tr s) = [nextNoteIndex s ..< nextNoteIndex (runScene ar tr s)]"
    using frames_admissions[OF assms(3), of s ar] by simp
  ultimately show ?thesis using assms(5) by (simp add: count_list_upt)
qed

text \<open>Runs on the one-note chart.\<close>

lemma oneNote_admit:
  "0.5 \<le> t \<Longrightarrow> admitLoop t (startScene oneNoteChart)
     = \<lparr> chart = oneNoteChart, gameStatus = PLAYING, activeNotes = [0], nextNoteIndex = Suc 0 \<rparr>"
  by (subst admitLoop.simps, simp add: startScene_def oneNoteChart_def mkNote_def
      spawnAheadTime_value Let_def, subst admitLoop.simps, simp)

lemma oneNote_frame_early:
  "0.5 \<le> t \<Longrightarrow> t < 2.9 \<Longrightarrow> useFrame exactArith t initialHands (startScene oneNoteChart)
     = (\<lparr> chart = oneNoteChart, gameStatus = PLAYING, activeNotes = [0], nextNoteIndex = Suc 0 \<rparr>, [])"
  by (simp add: useFrame_def Let_def oneNote_admit)
    (simp add: startScene_def judgeNote_def oneNoteChart_def mkNote_def currentZ_def exactArith_def
      PLAYER_Z_def MISS_Z_def NOTE_SPEED_def Let_def)

lemma oneNote_paused:
  "setGameStatus PLAYING (setGameStatus PAUSED
      \<lparr> chart = oneNoteChart, gameStatus = PLAYING, activeNotes = [0], nextNoteIndex = Suc 0 \<rparr>)
     = startScene oneNoteChart"
  by (simp add: setGameStatus_def resetEffect_def startScene_def)

lemma oneNote_admissions_pause:
  "admissions exactArith pauseTrace (startScene oneNoteChart) = [(0, 1), (0, 2)]"
  by (simp add: pauseTrace_def oneNote_frame_early oneNote_paused oneNote_admit)
    (simp add: startScene_def)

lemma admitLoop_done: "length (chart s) \<le> nextNoteIndex s \<Longrightarrow> admitLoop t s = s"
  by (subst admitLoop.simps) simp

lemma oneNote_admit_again:
  "admitLoop t \<lparr> chart = oneNoteChart, gameStatus = PLAYING, activeNotes = [0], nextNoteIndex = Suc 0 \<rparr>
     = \<lparr> chart = oneNoteChart, gameStatus = PLAYING, activeNotes = [0], nextNoteIndex = Suc 0 \<rparr>"
  by (rule admitLoop_done) (simp add: oneNoteChart_def)

lemma oneNote_frame_again:
  "t < 2.9 \<Longrightarrow> useFrame exactArith t initialHands
       \<lparr> chart = oneNoteChart, gameStatus = PLAYING, activeNotes = [0], nextNoteIndex = Suc 0 \<rparr>
     = (\<lparr> chart = oneNoteChart, gameStatus = PLAYING, activeNotes = [0], nextNoteIndex = Suc 0 \<rparr>, [])"
  by (simp add: useFrame_def Let_def oneNote_admit_again)
    (simp add: judgeNote_def oneNoteChart_def mkNote_def currentZ_def exactArith_def
      PLAYER_Z_def MISS_Z_def NOTE_SPEED_def Let_def)

text \<open>
  C3, amended.  Over frames with no change of \<open>gameStatus\<close> in between, the notes
  admitted are exactly those between the read index before and the read index after, each
  once, and the read index never decreases.  While playing on a time-sorted chart, a note
  at or after the read index that is due in one of these frames
  (\<open>currentTime \<ge> note.time - spawnAheadTime\<close>) is admitted exactly once.  Any
  admission, in any run, happens in a frame with
  \<open>currentTime \<ge> note.time - spawnAheadTime\<close>, where
  \<open>spawnAheadTime = |SPAWN_Z - PLAYER_Z| / NOTE_SPEED = 2.5\<close>.  A change of
  \<open>gameStatus\<close> sets the read index back to 0 and empties the active list, and leaves
  the chart as it is; a game starts with read index 0 and an empty active list.
\<close>

theorem admitted_once_between_resets:
  "((\<forall>inp \<in> set tr. isFrame inp)
      \<longrightarrow> distinct (map fst (admissions ar tr s))
          \<and> map fst (admissions ar tr s) = [nextNoteIndex s ..< nextNoteIndex (runScene ar tr s)])
   \<and> ((\<forall>inp \<in> set tr'. isFrame inp)
      \<longrightarrow> nextNoteIndex (runScene ar tr0 s) \<le> nextNoteIndex (runScene ar (tr0 @ tr') s))
   \<and> (sorted (map time (chart s)) \<and> gameStatus s = PLAYING \<and> (\<forall>inp \<in> set tr. isFrame inp)
       \<and> Frame u hands \<in> set tr \<and> nextNoteIndex s \<le> j \<and> j < length (chart s)
       \<and> time (chart s ! j) - spawnAheadTime \<le> u
      \<longrightarrow> count_list (map fst (admissions ar tr s)) j = 1)
   \<and> ((k, t) \<in> set (admissions ar tr s)
      \<longrightarrow> k < length (chart s) \<and> t \<ge> time (chart s ! k) - spawnAheadTime)
   \<and> spawnAheadTime = \<bar>SPAWN_Z - PLAYER_Z\<bar> / NOTE_SPEED \<and> spawnAheadTime = 2.5
   \<and> nextNoteIndex (setGameStatus g s) = (if g = gameStatus s then nextNoteIndex s else 0)
   \<and> activeNotes (setGameStatus g s) = (if g = gameStatus s then activeNotes s else [])
   \<and> chart (setGameStatus g s) = chart s
   \<and> nextNoteIndex (startScene c) = 0 \<and> activeNotes (startScene c) = []"
proof (intro conjI impI)
  assume f: "\<forall>inp \<in> set tr. isFrame inp"
  from frames_admissions[OF f, of s ar]
  show m: "map fst (admissions ar tr s) = [nextNoteIndex s ..< nextNoteIndex (runScene ar tr s)]"
    by simp
  show "distinct (map fst (admissions ar tr s))" by (subst m) simp
next
  assume f: "\<forall>inp \<in> set tr'. isFrame inp"
  from frames_admissions[OF f, of "runScene ar tr0 s" ar]
  show "nextNoteIndex (runScene ar tr0 s) \<le> nextNoteIndex (runScene ar (tr0 @ tr') s)"
    by (simp add: run_append)
next
  assume a: "sorted (map time (chart s)) \<and> gameStatus s = PLAYING \<and> (\<forall>inp \<in> set tr. isFrame inp)
       \<and> Frame u hands \<in> set tr \<and> nextNoteIndex s \<le> j \<and> j < length (chart s)
       \<and> time (chart s ! j) - spawnAheadTime \<le> u"
  then show "count_list (map fst (admissions ar tr s)) j = 1"
    by (intro due_admitted_once[where t = u and hands = hands]) blast+
next
  assume a: "(k, t) \<in> set (admissions ar tr s)"
  from admissions_due[OF a] show "k < length (chart s)" "time (chart s ! k) - spawnAheadTime \<le> t"
    by simp_all
next
  show "spawnAheadTime = \<bar>SPAWN_Z - PLAYER_Z\<bar> / NOTE_SPEED" by (rule spawnAheadTime_def)
  show "spawnAheadTime = 2.5" by (rule spawnAheadTime_value)
  show "nextNoteIndex (setGameStatus g s) = (if g = gameStatus s then nextNoteIndex s else 0)"
    by (simp add: setGameStatus_def resetEffect_def)
  show "activeNotes (setGameStatus g s) = (if g = gameStatus s then activeNotes s else [])"
    by (simp add: setGameStatus_def resetEffect_def)
  show "chart (setGameStatus g s) = chart s" by (simp add: setGameStatus_def resetEffect_def)
  show "nextNoteIndex (startScene c) = 0" by (simp add: startScene_def)
  show "activeNotes (startScene c) = []" by (simp add: startScene_def)
qed

theorem admitted_once_between_resets_witness:
  "isFrame (Frame 1 initialHands) \<and> isFrame (Frame 2 initialHands)
   \<and> admissions exactArith [Frame 1 initialHands, Frame 2 initialHands] (startScene oneNoteChart)
       = [(0, 1)]
   \<and> map fst (admissions exactArith [Frame 1 initialHands, Frame 2 initialHands]
                 (startScene oneNoteChart)) = [0 ..< 1]
   \<and> nextNoteIndex (runScene exactArith [Frame 1 initialHands] (startScene oneNoteChart))
       \<le> nextNoteIndex (runScene exactArith ([Frame 1 initialHands] @ [Frame 2 initialHands])
                            (startScene oneNoteChart))
   \<and> sorted (map time (chart (startScene oneNoteChart)))
   \<and> gameStatus (startScene oneNoteChart) = PLAYING
   \<and> Frame 1 initialHands \<in> set [Frame 1 initialHands, Frame 2 initialHands]
   \<and> nextNoteIndex (startScene oneNoteChart) \<le> 0
   \<and> count_list (map fst (admissions exactArith [Frame 1 initialHands, Frame 2 initialHands]
                               (startScene oneNoteChart))) 0 = 1
   \<and> (0, 1) \<in> set (admissions exactArith [Frame 1 initialHands, Frame 2 initialHands]
                        (startScene oneNoteChart))
   \<and> 0 < length (chart (startScene oneNoteChart))
   \<and> 1 \<ge> time (chart (startScene oneNoteChart) ! 0) - spawnAheadTime"
proof -
  let ?tr = "[Frame 1 initialHands, Frame 2 initialHands]"
  let ?s = "startScene oneNoteChart"
  have fr: "\<forall>inp \<in> set ?tr. isFrame inp" by simp
  have fr2: "\<forall>inp \<in> set [Frame 2 initialHands]. isFrame inp" by simp
  have ad: "admissions exactArith ?tr ?s = [(0, 1)]"
    by (simp add: oneNote_frame_early oneNote_frame_again oneNote_admit oneNote_admit_again)
      (simp add: startScene_def)
  have run: "nextNoteIndex (runScene exactArith ?tr ?s) = 1"
    by (simp add: oneNote_frame_early oneNote_frame_again)
  have run0: "nextNoteIndex ?s = 0" by (simp add: startScene_def)
  have mem: "(0, 1) \<in> set (admissions exactArith ?tr ?s)" unfolding ad by simp
  have srt: "sorted (map time (chart ?s))" by (simp add: startScene_def oneNoteChart_def)
  have pl: "gameStatus ?s = PLAYING" by (simp add: startScene_def)
  have fm: "Frame 1 initialHands \<in> set ?tr" by simp
  have len: "0 < length (chart ?s)" by (simp add: startScene_def oneNoteChart_def)
  have due: "time (chart ?s ! 0) - spawnAheadTime \<le> 1"
    by (simp add: startScene_def oneNoteChart_def mkNote_def spawnAheadTime_value)
  from admitted_once_between_resets [where ar = exactArith and tr = ?tr and s = ?s
      and tr0 = "[Frame 1 initialHands]" and tr' = "[Frame 2 initialHands]" and k = 0 and t = 1
      and j = 0 and u = 1 and hands = initialHands] fr fr2 mem srt pl fm run0 len due
  have "map fst (admissions exactArith ?tr ?s)
          = [nextNoteIndex ?s ..< nextNoteIndex (runScene exactArith ?tr ?s)]"
    and "nextNoteIndex (runScene exactArith [Frame 1 initialHands] ?s)
       \<le> nextNoteIndex (runScene exactArith ([Frame 1 initialHands] @ [Frame 2 initialHands]) ?s)"
    and "count_list (map fst (admissions exactArith ?tr ?s)) 0 = 1"
    and "0 < length (chart ?s) \<and> 1 \<ge> time (chart ?s ! 0) - spawnAheadTime"
    by blast+
  with ad run run0 mem srt pl fm show ?thesis by simp
qed

text \<open>
  C3, as the specification states it: every chart note is admitted exactly once per
  session and the read index never decreases during play.  With a pause and a resume
  between two frames, the only note of the chart is admitted in both frames, and the
  read index goes from 1 back to 0 at the pause.
\<close>

theorem readmission_counterexample:
  "admissions exactArith pauseTrace (startScene oneNoteChart) = [(0, 1), (0, 2)]
   \<and> count_list (map fst (admissions exactArith pauseTrace (startScene oneNoteChart))) 0 = 2
   \<and> nextNoteIndex (runScene exactArith [Frame 1 initialHands] (startScene oneNoteChart)) = 1
   \<and> nextNoteIndex (runScene exactArith [Frame 1 initialHands, StatusChange PAUSED]
                         (startScene oneNoteChart)) = 0"
  by (simp add: oneNote_admissions_pause oneNote_frame_early setGameStatus_def resetEffect_def)







lemma oneNote_hit_frame:
  "chart (fst (useFrame exactArith 3 hitHands (startScene oneNoteChart))) ! 0
     = (mkNote 0 3 0 Left)\<lparr>hit := True, hitTime := Some 3\<rparr>"
proof -
  let ?s = "startScene oneNoteChart"
  note r = rounding_exact
  have c: "chart ?s ! 0 = mkNote 0 3 0 Left" by (simp add: startScene_def oneNoteChart_def)
  have w: "inWindow exactArith (currentZ exactArith 3 (chart ?s ! 0))"
    by (simp add: c mkNote_def currentZ_def inWindow_def PLAYER_Z_def exactArith_def)
  have "chart (fst (useFrame exactArith 3 hitHands ?s)) ! 0
        = (chart ?s ! 0)\<lparr>hit := True, hitTime := Some 3\<rparr>
      \<and> HitEvent 0 True \<in> set (snd (useFrame exactArith 3 hitHands ?s))"
  proof (rule useFrame_hits[where p = "notePos exactArith 3 (mkNote 0 3 0 Left)"])
    show "gameStatus ?s = PLAYING" by (simp add: startScene_def)
    show "0 \<in> set (activeNotes (admitLoop 3 ?s))" by (simp add: oneNote_admit)
    show "0 < length (chart ?s)" by (simp add: startScene_def oneNoteChart_def)
    show "\<not> resolved (chart ?s ! 0)" by (simp add: c resolved_def mkNote_def)
    show "inWindow exactArith (currentZ exactArith 3 (chart ?s ! 0))" by (rule w)
    show "handFor hitHands (chart ?s ! 0) = Some (notePos exactArith 3 (mkNote 0 3 0 Left))"
      by (simp add: c handFor_def hitHands_def handsAt_def mkNote_def)
    show "distanceTo exactArith (notePos exactArith 3 (mkNote 0 3 0 Left))
            (notePos exactArith 3 (chart ?s ! 0)) < fl exactArith 1.1"
      by (simp add: c distanceTo_self[OF r]) (simp add: exactArith_def)
    show "\<not> currentZ exactArith 3 (chart ?s ! 0) > MISS_Z"
      by (rule window_below_miss[OF r w])
  qed
  then show ?thesis by (simp add: c)
qed


theorem note_flags_invariant_witness:
  "generateDemoChart rnd0 ! 0 \<in> set (generateDemoChart rnd0)
   \<and> noteInv (generateDemoChart rnd0 ! 0)
   \<and> 0 < length (generateDemoChart rnd0)
   \<and> noteInv (chart (runScene exactArith [Frame 3 hitHands]
                        (startScene (generateDemoChart rnd0))) ! 0)
   \<and> noteInv (chart (startScene oneNoteChart) ! 0)
   \<and> noteInv (chart (runScene exactArith [Frame 3 hitHands] (startScene oneNoteChart)) ! 0)
   \<and> hit (chart (runScene exactArith [Frame 3 hitHands] (startScene oneNoteChart)) ! 0)
   \<and> hitTime (chart (runScene exactArith [Frame 3 hitHands] (startScene oneNoteChart)) ! 0)
       = Some 3
   \<and> \<not> missed (chart (runScene exactArith [Frame 3 hitHands] (startScene oneNoteChart)) ! 0)
   \<and> chart (runScene exactArith ([Frame 3 hitHands] @ [Frame 4 initialHands])
              (startScene oneNoteChart)) ! 0
       = chart (runScene exactArith [Frame 3 hitHands] (startScene oneNoteChart)) ! 0"
proof -
  let ?s = "startScene oneNoteChart"
  let ?tr = "[Frame 3 hitHands]"
  have m: "generateDemoChart rnd0 ! 0 \<in> set (generateDemoChart rnd0)"
    by (simp add: chart_head)
  have i0: "noteInv (chart ?s ! 0)"
    by (simp add: startScene_def oneNoteChart_def mkNote_def noteInv_def)
  have e: "chart (runScene exactArith ?tr ?s) ! 0
             = (mkNote 0 3 0 Left)\<lparr>hit := True, hitTime := Some 3\<rparr>"
    by (simp add: oneNote_hit_frame)
  then have h: "hit (chart (runScene exactArith ?tr ?s) ! 0)"
    and ht: "hitTime (chart (runScene exactArith ?tr ?s) ! 0) = Some 3"
    and nm: "\<not> missed (chart (runScene exactArith ?tr ?s) ! 0)"
    by (simp_all add: mkNote_def)
  have l: "0 < length (generateDemoChart rnd0)"
    using chart_length_ge2[of rnd0] by linarith
  from note_flags_invariant [where ar = exactArith and rnd = rnd0 and s = ?s and tr = ?tr
      and k = 0 and j = 0 and tr' = "[Frame 4 initialHands]"] m i0 h l
  have "noteInv (generateDemoChart rnd0 ! 0)"
    and "noteInv (chart (runScene exactArith ?tr (startScene (generateDemoChart rnd0))) ! 0)"
    and "noteInv (chart (runScene exactArith ?tr ?s) ! 0)"
    and "chart (runScene exactArith (?tr @ [Frame 4 initialHands]) ?s) ! 0
           = chart (runScene exactArith ?tr ?s) ! 0"
    by blast+
  with m i0 h ht nm l show ?thesis by blast
qed

end
